theory Spec2Isabelle
  imports Main "HOL-Library.AList"
begin

chapter \<open>The programs\<close>

section \<open>Errors\<close>

text \<open>
  The Python exceptions that the modelled functions can raise. Every raise of the source is a
  branch returning \<open>Inl\<close> of one of these. \<open>FileNotFoundError\<close> is raised by none of the
  modelled functions; it is there so that its absence can be stated.
\<close>

datatype py_error =
  IndexError | KeyError | ValueError | ZeroDivisionError | RuntimeError | FileNotFoundError

section \<open>PredictionRoutinePlanner: \<open>construct_prediction_routine\<close> (predict.py)\<close>

text \<open>
  The argument \<open>models: str | list[str]\<close> is a tagged union.
\<close>

datatype models_arg = Str string | StrList "string list"

text \<open>
  The result \<open>dict[tuple, list[str]]\<close> is an association list in insertion order (Python
  dictionaries keep it) whose keys are unique. The spacing tuple is a type parameter; keys
  are compared by value.
\<close>

type_synonym 'k routine = "('k \<times> string list) list"

text \<open>
  The body of the loop for one model whose spacing is \<open>k\<close>:
  \<^verbatim>\<open>
  if model_spacing in prediction_routine:
      prediction_routine[model_spacing].append(model)
  else:
      prediction_routine[model_spacing] = [model]
  \<close>
\<close>

fun routine_add :: "'k \<Rightarrow> string \<Rightarrow> 'k routine \<Rightarrow> 'k routine" where
  "routine_add k m [] = [(k, [m])]"
| "routine_add k m ((k', ms) # r) =
     (if k = k' then (k', ms @ [m]) # r else (k', ms) # routine_add k m r)"

text \<open>
  The loop \<open>for model in models\<close>. \<open>AVAILABLE_MODELS\<close> and \<open>MODELS\<close> come from
  \<open>moosez.resources\<close>; they are parameters here: the list of available identifiers and the
  table from an identifier to its \<open>"voxel_spacing"\<close> entry. \<open>MODELS[model]\<close> raises
  \<open>KeyError\<close> for an identifier that is available but has no entry.
\<close>

fun routine_loop ::
  "string list \<Rightarrow> (string \<rightharpoonup> 'k) \<Rightarrow> string list \<Rightarrow> 'k routine \<Rightarrow> py_error + 'k routine" where
  "routine_loop AVAILABLE_MODELS MODELS [] r = Inr r"
| "routine_loop AVAILABLE_MODELS MODELS (model # rest) r =
     (if model \<in> set AVAILABLE_MODELS then
        (case MODELS model of
           None \<Rightarrow> Inl KeyError
         | Some model_spacing \<Rightarrow>
             routine_loop AVAILABLE_MODELS MODELS rest (routine_add model_spacing model r))
      else routine_loop AVAILABLE_MODELS MODELS rest r)"

text \<open>The list that is iterated: a single string is wrapped into a one-element list.\<close>

fun requested :: "models_arg \<Rightarrow> string list" where
  "requested (Str s) = [s]"
| "requested (StrList ms) = ms"

definition construct_prediction_routine ::
  "string list \<Rightarrow> (string \<rightharpoonup> 'k) \<Rightarrow> models_arg \<Rightarrow> py_error + 'k routine" where
  "construct_prediction_routine AVAILABLE_MODELS MODELS models =
     routine_loop AVAILABLE_MODELS MODELS (requested models) []"

text \<open>The group stored under a key; the empty list when the key is absent.\<close>

definition group_of :: "'k routine \<Rightarrow> 'k \<Rightarrow> string list" where
  "group_of r k = (case map_of r k of None \<Rightarrow> [] | Some g \<Rightarrow> g)"

section \<open>N-dimensional arrays (numpy)\<close>

text \<open>
  An array is its shape together with the function from an index tuple to the element
  stored there; only in-bounds indices matter. The element type is a type parameter:
  all chunks and the output share one dtype, so no cast is modelled.
\<close>

record 'a ndarray =
  shape :: "nat list"
  item :: "nat list \<Rightarrow> 'a"

text \<open>\<open>np.ndindex(shape)\<close>: every in-bounds index tuple, in row-major order.\<close>

fun ndindex :: "nat list \<Rightarrow> nat list list" where
  "ndindex [] = [ []]"
| "ndindex (d # ds) = concat (map (\<lambda>i. map ((#) i) (ndindex ds)) [0..<d])"

text \<open>\<open>np.array_equal\<close>: same shape and the same element at every index.\<close>

definition array_equal :: "'a ndarray \<Rightarrow> 'a ndarray \<Rightarrow> bool" where
  "array_equal A B =
     (shape A = shape B \<and> list_all (\<lambda>i. item A i = item B i) (ndindex (shape A)))"

text \<open>The elements in row-major order (\<open>A.ravel().tolist()\<close>).\<close>

definition ravel :: "'a ndarray \<Rightarrow> 'a list" where
  "ravel A = map (item A) (ndindex (shape A))"

text \<open>
  \<open>np.empty(shape, dtype)\<close> allocates without initialising: the elements are whatever the
  memory held. That content is the explicit parameter \<open>g\<close>.
\<close>

definition np_empty :: "(nat list \<Rightarrow> 'a) \<Rightarrow> nat list \<Rightarrow> 'a ndarray" where
  "np_empty g sh = \<lparr>shape = sh, item = g\<rparr>"

text \<open>\<open>np.full(shape, v)\<close> and \<open>np.arange(n)\<close>, used for concrete inputs.\<close>

definition np_full :: "nat list \<Rightarrow> 'a \<Rightarrow> 'a ndarray" where
  "np_full sh v = \<lparr>shape = sh, item = \<lambda>_. v\<rparr>"

definition np_arange :: "nat \<Rightarrow> nat ndarray" where
  "np_arange n = \<lparr>shape = [n], item = \<lambda>i. case i of [] \<Rightarrow> 0 | k # _ \<Rightarrow> k\<rparr>"

text \<open>\<open>A[None, ...]\<close>: a new leading axis of length 1.\<close>

definition expand_dims0 :: "'a ndarray \<Rightarrow> 'a ndarray" where
  "expand_dims0 A = \<lparr>shape = 1 # shape A, item = \<lambda>i. item A (tl i)\<rparr>"

text \<open>\<open>A[0]\<close> on an array whose leading axis has length 1: that axis removed.\<close>

definition drop_batch_axis :: "'a ndarray \<Rightarrow> 'a ndarray" where
  "drop_batch_axis A = \<lparr>shape = tl (shape A), item = \<lambda>i. item A (0 # i)\<rparr>"

subsection \<open>Slice assignment \<open>A[slices] = C\<close>\<close>

text \<open>
  \<open>slice(start, stop)\<close> on an axis of length \<open>d\<close> is clipped to the axis; the result is
  the first selected index and the number of selected indices.
\<close>

definition clip_slice :: "nat \<Rightarrow> nat \<times> nat \<Rightarrow> nat \<times> nat" where
  "clip_slice d se = (min (fst se) d, min (snd se) d - min (fst se) d)"

text \<open>
  The selected region, one (start, length) per axis of the array; an axis without a slice is
  selected whole.
\<close>

definition dest_region :: "nat list \<Rightarrow> (nat \<times> nat) list \<Rightarrow> (nat \<times> nat) list" where
  "dest_region sh slices =
     map2 clip_slice sh slices @ map (\<lambda>d. (0, d)) (drop (length slices) sh)"

definition in_region :: "(nat \<times> nat) list \<Rightarrow> nat list \<Rightarrow> bool" where
  "in_region reg i = list_all2 (\<lambda>(s, l) x. s \<le> x \<and> x < s + l) reg i"

text \<open>
  Broadcasting of the assigned value to the selected region. numpy first strips unit axes
  from the left of the value while it has more axes than the target, then aligns the axes
  on the right; each axis of the value must have the length of the target's axis or
  length 1, and the value must not have more axes than the target.
\<close>

definition strip_count :: "nat list \<Rightarrow> nat \<Rightarrow> nat" where
  "strip_count cs n = length (takeWhile (\<lambda>c. c = 1) (take (length cs - n) cs))"

definition broadcastable :: "nat list \<Rightarrow> nat list \<Rightarrow> bool" where
  "broadcastable cs ts =
     (let cs' = drop (strip_count cs (length ts)) cs
      in length cs' \<le> length ts
         \<and> list_all2 (\<lambda>c t. c = t \<or> c = 1) cs' (drop (length ts - length cs') ts))"

text \<open>The index of the value's element that lands at offset \<open>t\<close> of the region.\<close>

definition source_index :: "nat list \<Rightarrow> nat list \<Rightarrow> nat list" where
  "source_index cs t =
     (let s = strip_count cs (length t); cs' = drop s cs
      in replicate s 0 @ map2 (\<lambda>c x. if c = 1 then 0 else x) cs' (drop (length t - length cs') t))"

text \<open>
  The assignment: \<open>IndexError\<close> for more slices than axes, \<open>ValueError\<close> when the value cannot
  be broadcast to the region, otherwise the array with the region overwritten.
\<close>

definition setitem ::
  "'a ndarray \<Rightarrow> (nat \<times> nat) list \<Rightarrow> 'a ndarray \<Rightarrow> py_error + 'a ndarray" where
  "setitem A slices C =
     (if length (shape A) < length slices then Inl IndexError
      else let reg = dest_region (shape A) slices in
        if \<not> broadcastable (shape C) (map snd reg) then Inl ValueError
        else Inr (A\<lparr>item := \<lambda>i.
               if in_region reg i
               then item C (source_index (shape C) (map2 (-) i (map fst reg)))
               else item A i\<rparr>))"

subsection \<open>\<open>np.squeeze\<close>\<close>

text \<open>
  \<open>np.squeeze(A)\<close> without an axis argument removes every axis of length 1.
  \<open>unsqueeze_index\<close> maps an index of the result back to the index of \<open>A\<close>;
  \<open>squeeze_index\<close> maps an index of \<open>A\<close> to the index of the result.
\<close>

fun unsqueeze_index :: "nat list \<Rightarrow> nat list \<Rightarrow> nat list" where
  "unsqueeze_index [] j = []"
| "unsqueeze_index (d # ds) j =
     (if d = 1 then 0 # unsqueeze_index ds j
      else (case j of [] \<Rightarrow> [] | x # xs \<Rightarrow> x # unsqueeze_index ds xs))"

fun squeeze_index :: "nat list \<Rightarrow> nat list \<Rightarrow> nat list" where
  "squeeze_index [] i = []"
| "squeeze_index (d # ds) [] = []"
| "squeeze_index (d # ds) (x # xs) =
     (if d = 1 then squeeze_index ds xs else x # squeeze_index ds xs)"

definition squeeze :: "'a ndarray \<Rightarrow> 'a ndarray" where
  "squeeze A = \<lparr>shape = filter (\<lambda>d. d \<noteq> 1) (shape A),
                item = \<lambda>j. item A (unsqueeze_index (shape A) j)\<rparr>"

section \<open>SegmentationReconstructor: \<open>reconstruct_array_from_chunks\<close> (predict.py)\<close>

text \<open>
  \<^verbatim>\<open>
  def reconstruct_array_from_chunks(chunks, chunk_positions, original_shape):
      reconstructed_array = np.empty(original_shape, dtype=chunks[0].dtype)
      for chunk, position in zip(chunks, chunk_positions):
          chunk = chunk[None, ...]
          slices = tuple(slice(pos * csize, pos * csize + csize)
                         for pos, csize in zip(position, chunk.shape))
          reconstructed_array[slices] = chunk
      return np.squeeze(reconstructed_array)
  \<close>
\<close>

text \<open>The slices of one chunk: per axis, grid coordinate times the chunk's own size.\<close>

definition chunk_slices :: "nat list \<Rightarrow> nat list \<Rightarrow> (nat \<times> nat) list" where
  "chunk_slices position cshape =
     map (\<lambda>(pos, csize). (pos * csize, pos * csize + csize)) (zip position cshape)"

text \<open>The body of the loop for one pair of \<open>zip(chunks, chunk_positions)\<close>.\<close>

definition place_chunk ::
  "'a ndarray \<Rightarrow> 'a ndarray \<times> nat list \<Rightarrow> py_error + 'a ndarray" where
  "place_chunk reconstructed_array cp =
     (let chunk = expand_dims0 (fst cp);
          slices = chunk_slices (snd cp) (shape chunk)
      in setitem reconstructed_array slices chunk)"

fun place_all ::
  "'a ndarray \<Rightarrow> ('a ndarray \<times> nat list) list \<Rightarrow> py_error + 'a ndarray" where
  "place_all reconstructed_array [] = Inr reconstructed_array"
| "place_all reconstructed_array (cp # rest) =
     (case place_chunk reconstructed_array cp of
        Inl e \<Rightarrow> Inl e
      | Inr reconstructed_array' \<Rightarrow> place_all reconstructed_array' rest)"

text \<open>
  The function. \<open>chunks[0].dtype\<close> raises \<open>IndexError\<close> on an empty list. The first
  argument \<open>g\<close> is the content of the memory that \<open>np.empty\<close> hands out.
\<close>

definition reconstruct_array_from_chunks ::
  "(nat list \<Rightarrow> 'a) \<Rightarrow> 'a ndarray list \<Rightarrow> nat list list \<Rightarrow> nat list \<Rightarrow> py_error + 'a ndarray" where
  "reconstruct_array_from_chunks g chunks chunk_positions original_shape =
     (case chunks of
        [] \<Rightarrow> Inl IndexError
      | _ # _ \<Rightarrow>
          (case place_all (np_empty g original_shape) (zip chunks chunk_positions) of
             Inl e \<Rightarrow> Inl e
           | Inr reconstructed_array \<Rightarrow> Inr (squeeze reconstructed_array)))"

subsection \<open>Vocabulary for the properties of the reconstructor\<close>

text \<open>
  For a (chunk, position) pair and an output shape: the region the chunk is written to,
  whether the write is accepted, and the element that lands at index \<open>i\<close>.
\<close>

definition chunk_region :: "nat list \<Rightarrow> 'a ndarray \<times> nat list \<Rightarrow> (nat \<times> nat) list" where
  "chunk_region sh cp = dest_region sh (chunk_slices (snd cp) (1 # shape (fst cp)))"

definition chunk_fits :: "nat list \<Rightarrow> 'a ndarray \<times> nat list \<Rightarrow> bool" where
  "chunk_fits sh cp =
     (length (chunk_slices (snd cp) (1 # shape (fst cp))) \<le> length sh
      \<and> broadcastable (1 # shape (fst cp)) (map snd (chunk_region sh cp)))"

definition chunk_value :: "nat list \<Rightarrow> 'a ndarray \<times> nat list \<Rightarrow> nat list \<Rightarrow> 'a" where
  "chunk_value sh cp i =
     item (fst cp)
       (tl (source_index (1 # shape (fst cp)) (map2 (-) i (map fst (chunk_region sh cp)))))"

text \<open>Index \<open>i\<close> lies in the destination region of some chunk.\<close>

definition written :: "('a ndarray \<times> nat list) list \<Rightarrow> nat list \<Rightarrow> nat list \<Rightarrow> bool" where
  "written cps sh i = list_ex (\<lambda>cp. in_region (chunk_region sh cp) i) cps"

text \<open>The last pair of the list whose destination region contains \<open>i\<close>.\<close>

definition last_writer ::
  "('a ndarray \<times> nat list) list \<Rightarrow> nat list \<Rightarrow> nat list \<Rightarrow> ('a ndarray \<times> nat list) option" where
  "last_writer cps sh i = find (\<lambda>cp. in_region (chunk_region sh cp) i) (rev cps)"

text \<open>
  A pair is well ranked for the output (one coordinate per output axis, the chunk has one
  axis less than the output) and every one of its slices ends inside the output.
\<close>

definition slices_within :: "nat list \<Rightarrow> 'a ndarray \<times> nat list \<Rightarrow> bool" where
  "slices_within sh cp =
     (length (snd cp) = length sh \<and> Suc (length (shape (fst cp))) = length sh
      \<and> list_all2 (\<lambda>(start, stop) d. stop \<le> d) (chunk_slices (snd cp) (1 # shape (fst cp))) sh)"

section \<open>ChunkPartitioner and pipeline: \<open>predict_from_array_by_iterator\<close> (predict.py)\<close>

text \<open>
  \<^verbatim>\<open>
  image_array = image_array[None, ...]
  chunks = [axis / image_processing.ImageResampler.chunk_along_axis(axis)
            for axis in image_array.shape]
  prediction_array = da.from_array(image_array, chunks=chunks)
  ...
  iterator, chunk_locations = preprocessing_iterator_from_dask_array(prediction_array, ...)
  segmentations = predictor.predict_from_data_iterator(iterator)
  combined_segmentations = reconstruct_array_from_chunks(segmentations, chunk_locations,
                                                         prediction_array.shape)
  \<close>
  \<open>chunk_along_axis\<close> is not among the sources; it is a parameter. The true division
  \<open>axis / count\<close> raises \<open>ZeroDivisionError\<close> for a count of zero; its quotient is kept exact,
  as the pair of numerator and denominator (a float represents it exactly for the axis
  lengths of an image).
\<close>

fun chunk_counts :: "(nat \<Rightarrow> nat) \<Rightarrow> nat list \<Rightarrow> py_error + (nat \<times> nat) list" where
  "chunk_counts chunk_along_axis [] = Inr []"
| "chunk_counts chunk_along_axis (axis # rest) =
     (if chunk_along_axis axis = 0 then Inl ZeroDivisionError
      else (case chunk_counts chunk_along_axis rest of
              Inl e \<Rightarrow> Inl e
            | Inr qs \<Rightarrow> Inr ((axis, chunk_along_axis axis) # qs)))"

text \<open>
  \<open>da.from_array(x, chunks=c)\<close> with one number per axis is the grid-chunking primitive of
  the dask library. Its chunk normalisation accepts a number only if it is integer valued
  (\<open>ValueError\<close> otherwise) and cuts an axis of length \<open>d\<close> into \<open>d // bd\<close> blocks of
  \<open>bd\<close> followed by one block of \<open>d % bd\<close> when that is not zero; an axis of length 0 is
  one empty block.
\<close>

definition blockdims :: "nat \<Rightarrow> nat \<Rightarrow> py_error + nat list" where
  "blockdims d bd =
     (if d = 0 then Inr [0]
      else if bd = 0 then Inl ZeroDivisionError
      else Inr (replicate (d div bd) bd @ (if d mod bd = 0 then [] else [d mod bd])))"

fun normalize_chunks :: "nat list \<Rightarrow> (nat \<times> nat) list \<Rightarrow> py_error + nat list list" where
  "normalize_chunks [] [] = Inr []"
| "normalize_chunks [] (q # qs) = Inl ValueError"
| "normalize_chunks (d # ds) [] = Inl ValueError"
| "normalize_chunks (d # ds) ((a, n) # qs) =
     (if a mod n \<noteq> 0 then Inl ValueError
      else (case blockdims d (a div n) of
              Inl e \<Rightarrow> Inl e
            | Inr bs \<Rightarrow>
                (case normalize_chunks ds qs of
                   Inl e \<Rightarrow> Inl e
                 | Inr bss \<Rightarrow> Inr (bs # bss))))"

text \<open>
  The block of the grid at location \<open>loc\<close>, for the per-axis block sizes \<open>bss\<close>: it starts,
  on each axis, where the blocks before it end.
\<close>

definition block :: "'a ndarray \<Rightarrow> nat list list \<Rightarrow> nat list \<Rightarrow> 'a ndarray" where
  "block A bss loc =
     \<lparr>shape = map2 (\<lambda>bs j. bs ! j) bss loc,
      item = \<lambda>i. item A (map2 (+) (map2 (\<lambda>bs j. sum_list (take j bs)) bss loc) i)\<rparr>"

text \<open>
  The pipeline. \<open>preprocessing_iterator_from_dask_array\<close> walks the grid with
  \<open>np.ndindex\<close> and pairs each block with its location; preprocessing and the predictor
  belong to the inference engine and are the parameter \<open>segment\<close>, which maps a block (with
  its leading batch axis) to its segmentation (without it), results in submission order.
\<close>

definition predict_from_array_by_iterator ::
  "(nat list \<Rightarrow> 'b) \<Rightarrow> (nat \<Rightarrow> nat) \<Rightarrow> ('a ndarray \<Rightarrow> 'b ndarray) \<Rightarrow> 'a ndarray
     \<Rightarrow> py_error + 'b ndarray" where
  "predict_from_array_by_iterator g chunk_along_axis segment image_array =
     (let image_array' = expand_dims0 image_array in
      case chunk_counts chunk_along_axis (shape image_array') of
        Inl e \<Rightarrow> Inl e
      | Inr chunks \<Rightarrow>
          (case normalize_chunks (shape image_array') chunks of
             Inl e \<Rightarrow> Inl e
           | Inr bss \<Rightarrow>
               let chunk_locations = ndindex (map length bss);
                   segmentations = map (\<lambda>loc. segment (block image_array' bss loc)) chunk_locations
               in reconstruct_array_from_chunks g segmentations chunk_locations
                    (shape image_array')))"

text \<open>
  For a chunk count that divides its axis: the extent of every block, and the block sizes.
\<close>

definition extents :: "(nat \<Rightarrow> nat) \<Rightarrow> nat list \<Rightarrow> nat list" where
  "extents cnt sh = map (\<lambda>d. d div cnt d) sh"

definition uniform_blocks :: "(nat \<Rightarrow> nat) \<Rightarrow> nat list \<Rightarrow> nat list list" where
  "uniform_blocks cnt sh = map (\<lambda>d. replicate (cnt d) (d div cnt d)) sh"

section \<open>LabelMerger: \<open>create_multi_model_label_segmentation\<close>
  (\<open>utility/combine_multi_model_labels.py\<close>)\<close>

text \<open>
  An OrganIndexMap is a \<open>dict[int, str]\<close>: an association list in insertion order with
  unique keys, written with \<open>AList.update\<close>. A label image maps a voxel to its label; the
  voxel type is a parameter (all images of one merge share one grid).
\<close>

type_synonym organ_indices = "(nat \<times> string) list"

type_synonym 'v image = "'v \<Rightarrow> nat"

text \<open>The two attributes of \<open>models.Model\<close> that the function reads.\<close>

record model =
  multilabel_prefix :: string
  organ_indices :: organ_indices

text \<open>
  The files: a path holds a label volume or an index sidecar. \<open>SimpleITK.ReadImage\<close> fails
  on a path that holds no volume.
\<close>

datatype 'v file_content = VolumeFile "'v image" | JsonFile organ_indices

type_synonym 'v files = "string \<rightharpoonup> 'v file_content"

definition ReadImage :: "'v files \<Rightarrow> string \<Rightarrow> py_error + 'v image" where
  "ReadImage fs path = (case fs path of Some (VolumeFile img) \<Rightarrow> Inr img | _ \<Rightarrow> Inl RuntimeError)"

text \<open>\<open>os.path.join(a, b)\<close> (POSIX).\<close>

definition os_path_join :: "string \<Rightarrow> string \<Rightarrow> string" where
  "os_path_join a b =
     (if b \<noteq> [] \<and> hd b = CHR ''/'' then b
      else if a = [] \<or> last a = CHR ''/'' then a @ b
      else a @ ''/'' @ b)"

definition nii_suffixes :: "string list" where
  "nii_suffixes = [''.nii'', ''.nii.gz'']"

text \<open>
  Modelled from the spec: \<open>image_processing.add_model_label_image\<close>, the merge step, is not
  among the sources. Section 4.5 of the spec: per voxel, the merged label is the
  accumulator's label if that is nonzero, otherwise the overlay's label remapped to a new
  index; the merged map contains every accumulator entry unchanged, plus every overlay entry
  under its remapped index. The spec does not fix the remapping, only what it guarantees;
  it is the parameter \<open>remap\<close>, given the accumulator's map and an overlay index.
\<close>

definition add_model_label_image ::
  "(organ_indices \<Rightarrow> nat \<Rightarrow> nat) \<Rightarrow> 'v image \<Rightarrow> organ_indices \<Rightarrow> 'v image \<Rightarrow> organ_indices
     \<Rightarrow> 'v image \<times> organ_indices" where
  "add_model_label_image remap current_image current_dict new_image new_dict =
     (\<lambda>v. if current_image v \<noteq> 0 then current_image v
           else if new_image v \<noteq> 0 then remap current_dict (new_image v)
           else 0,
      fold (\<lambda>(k, name) d. AList.update (remap current_dict k) name d) new_dict current_dict)"

text \<open>
  Modelled from the spec: the guarantee of the remapping, "a new index guaranteed not to
  collide with any index already present in the accumulator's map": the remapped index of
  an overlay label is not an index of the accumulator's map.
\<close>

definition collision_free :: "(organ_indices \<Rightarrow> nat \<Rightarrow> nat) \<Rightarrow> bool" where
  "collision_free remap = (\<forall>cur k. k \<noteq> 0 \<longrightarrow> remap cur k \<notin> fst ` set cur)"

text \<open>
  One remapping with that guarantee: shift by the largest index of the accumulator. It
  gives the map \<open>{1: liver, 2: lung}\<close> of the spec's Scenario B.
\<close>

definition max_index :: "organ_indices \<Rightarrow> nat" where
  "max_index d = fold max (map fst d) 0"

definition offset_remap :: "organ_indices \<Rightarrow> nat \<Rightarrow> nat" where
  "offset_remap cur k = k + max_index cur"

text \<open>
  The loop \<open>for prepared_model in prepared_models[1:]\<close>. \<open>file_utilities.get_files\<close> is not
  among the sources; it is a parameter that returns the list of matching paths, and
  \<open>[0]\<close> on an empty list raises \<open>IndexError\<close>.
\<close>

fun merge_loop ::
  "(organ_indices \<Rightarrow> nat \<Rightarrow> nat) \<Rightarrow> (string \<Rightarrow> string \<Rightarrow> string list \<Rightarrow> string list)
     \<Rightarrow> 'v files \<Rightarrow> string \<Rightarrow> 'v image \<times> organ_indices \<Rightarrow> model list
     \<Rightarrow> py_error + 'v image \<times> organ_indices" where
  "merge_loop remap get_files fs segmentation_directory combined [] = Inr combined"
| "merge_loop remap get_files fs segmentation_directory combined (prepared_model # rest) =
     (case get_files segmentation_directory (multilabel_prefix prepared_model) nii_suffixes of
        [] \<Rightarrow> Inl IndexError
      | new_segmentation_file_path # _ \<Rightarrow>
          (case ReadImage fs new_segmentation_file_path of
             Inl e \<Rightarrow> Inl e
           | Inr new_segmentation_image \<Rightarrow>
               merge_loop remap get_files fs segmentation_directory
                 (add_model_label_image remap (fst combined) (snd combined)
                    new_segmentation_image (organ_indices prepared_model))
                 rest))"

text \<open>
  The function. \<open>Model\<close> stands for the constructor \<open>models.Model(identifier, ...)\<close>.
  The result is the returned pair together with the files after the two writes
  (\<open>SimpleITK.WriteImage\<close>, then \<open>json.dump\<close>).
\<close>

definition create_multi_model_label_segmentation ::
  "(organ_indices \<Rightarrow> nat \<Rightarrow> nat) \<Rightarrow> (string \<Rightarrow> model)
     \<Rightarrow> (string \<Rightarrow> string \<Rightarrow> string list \<Rightarrow> string list) \<Rightarrow> 'v files
     \<Rightarrow> string \<Rightarrow> string list
     \<Rightarrow> py_error + ('v image \<times> organ_indices) \<times> 'v files" where
  "create_multi_model_label_segmentation remap Model get_files fs segmentation_directory
     model_identifiers =
     (let prepared_models = map Model model_identifiers in
      case prepared_models of
        [] \<Rightarrow> Inl IndexError
      | base # rest \<Rightarrow>
          (case get_files segmentation_directory (multilabel_prefix base) nii_suffixes of
             [] \<Rightarrow> Inl IndexError
           | base_segmentation_file_path # _ \<Rightarrow>
               (case ReadImage fs base_segmentation_file_path of
                  Inl e \<Rightarrow> Inl e
                | Inr combined_segmentation_image \<Rightarrow>
                    (case merge_loop remap get_files fs segmentation_directory
                            (combined_segmentation_image, organ_indices base) rest of
                       Inl e \<Rightarrow> Inl e
                     | Inr combined \<Rightarrow>
                         let combined_segmentation_file =
                               os_path_join segmentation_directory ''combined_segmentations.nii.gz'';
                             fs1 = fs(combined_segmentation_file \<mapsto> VolumeFile (fst combined));
                             combined_segmentation_json_file =
                               os_path_join segmentation_directory ''combined_segmentations.json'';
                             fs2 = fs1(combined_segmentation_json_file \<mapsto> JsonFile (snd combined))
                         in Inr (combined, fs2)))))"

subsection \<open>Scenario B of the spec, as concrete data\<close>

text \<open>
  Model A with map \<open>{1: liver}\<close> and label 1 at voxel 0; model B with map \<open>{1: lung}\<close> and
  label 1 at voxels 0 and 1. No file matches any other prefix.
\<close>

definition scenario_Model :: "string \<Rightarrow> model" where
  "scenario_Model ident =
     \<lparr>multilabel_prefix = ident,
      organ_indices = (if ident = ''A'' then [(1, ''liver'')] else [(1, ''lung'')])\<rparr>"

definition scenario_get_files :: "string \<Rightarrow> string \<Rightarrow> string list \<Rightarrow> string list" where
  "scenario_get_files directory prefix suffixes =
     (if prefix = ''A'' \<or> prefix = ''B'' then [os_path_join directory (prefix @ ''.nii.gz'')]
      else [])"

definition scenario_files :: "nat files" where
  "scenario_files =
     [''seg/A.nii.gz'' \<mapsto> VolumeFile (\<lambda>v. if v = 0 then 1 else 0),
      ''seg/B.nii.gz'' \<mapsto> VolumeFile (\<lambda>v. if v \<le> 1 then 1 else 0)]"

chapter \<open>Properties\<close>

section \<open>The planner\<close>

lemma routine_add_keys:
  "map fst (routine_add k m r) = (if k \<in> fst ` set r then map fst r else map fst r @ [k])"
  by (induction k m r rule: routine_add.induct) (auto simp: image_iff)

lemma routine_add_distinct:
  "distinct (map fst r) \<Longrightarrow> distinct (map fst (routine_add k m r))"
  by (simp add: routine_add_keys)

lemma routine_add_group:
  "group_of (routine_add k m r) k' = (if k' = k then group_of r k @ [m] else group_of r k')"
  by (induction k m r rule: routine_add.induct) (auto simp: group_of_def)

lemma routine_add_nonempty:
  "[] \<notin> snd ` set r \<Longrightarrow> [] \<notin> snd ` set (routine_add k m r)"
  by (induction k m r rule: routine_add.induct) (auto simp: image_iff)

lemma routine_loop_total:
  "set AV \<subseteq> dom MODELS \<Longrightarrow> \<exists>r'. routine_loop AV MODELS ms r = Inr r'"
proof (induction ms arbitrary: r)
  case Nil
  then show ?case by simp
next
  case (Cons m ms)
  show ?case
  proof (cases "m \<in> set AV")
    case True
    with Cons.prems obtain k where "MODELS m = Some k" by blast
    with True Cons.IH [OF Cons.prems] show ?thesis by simp
  next
    case False
    with Cons.IH [OF Cons.prems] show ?thesis by simp
  qed
qed

lemma routine_loop_distinct:
  "routine_loop AV MODELS ms r = Inr r' \<Longrightarrow> distinct (map fst r) \<Longrightarrow> distinct (map fst r')"
  by (induction ms arbitrary: r)
     (auto split: if_splits option.splits intro: routine_add_distinct)

lemma routine_loop_nonempty:
  "routine_loop AV MODELS ms r = Inr r' \<Longrightarrow> [] \<notin> snd ` set r \<Longrightarrow> [] \<notin> snd ` set r'"
proof (induction ms arbitrary: r)
  case Nil
  then show ?case by simp
next
  case (Cons x ms)
  show ?case
  proof (cases "x \<in> set AV")
    case False
    with Cons.prems have "routine_loop AV MODELS ms r = Inr r'" by simp
    from Cons.IH [OF this Cons.prems(2)] show ?thesis .
  next
    case True
    with Cons.prems obtain kx where
      run: "routine_loop AV MODELS ms (routine_add kx x r) = Inr r'"
      by (auto split: option.splits)
    from Cons.IH [OF run routine_add_nonempty [OF Cons.prems(2)]] show ?thesis .
  qed
qed

lemma routine_loop_count:
  "routine_loop AV MODELS ms r = Inr r' \<Longrightarrow>
   count_list (group_of r' k) m =
     count_list (group_of r k) m
       + (if m \<in> set AV \<and> MODELS m = Some k then count_list ms m else 0)"
proof (induction ms arbitrary: r)
  case Nil
  then show ?case by simp
next
  case (Cons x ms)
  show ?case
  proof (cases "x \<in> set AV")
    case False
    with Cons.prems have "routine_loop AV MODELS ms r = Inr r'" by simp
    from Cons.IH [OF this] False show ?thesis by auto
  next
    case True
    with Cons.prems obtain kx where kx: "MODELS x = Some kx"
      and run: "routine_loop AV MODELS ms (routine_add kx x r) = Inr r'"
      by (auto split: option.splits)
    from Cons.IH [OF run] True kx show ?thesis
      by (auto simp: routine_add_group)
  qed
qed

text \<open>
  C9. A single identifier string gives exactly the routine of the one-element list that
  contains it.
\<close>

theorem single_string_is_singleton_list:
  "construct_prediction_routine AVAILABLE_MODELS MODELS (Str s)
     = construct_prediction_routine AVAILABLE_MODELS MODELS (StrList [s])"
  by (simp add: construct_prediction_routine_def)

text \<open>
  C2, as the claim states it, fails: an identifier requested twice is appended twice to its
  group. Here the registry holds \<open>a\<close> with spacing \<open>[3, 3, 3]\<close>.
\<close>

theorem routine_duplicate_counterexample:
  "construct_prediction_routine [''a''] [''a'' \<mapsto> [3, 3, 3 :: nat]] (StrList [''a'', ''a''])
     = Inr [([3, 3, 3], [''a'', ''a''])]"
  by (simp add: construct_prediction_routine_def)

text \<open>
  C2, amended. With every available identifier present in the registry table, the planner
  returns a routine whose keys are pairwise distinct and in which an identifier occurs only
  in the group keyed by its own spacing, there exactly as many times as it was requested;
  an identifier that is not available occurs in no group. No group is empty.
\<close>

theorem routine_partition:
  assumes "set AVAILABLE_MODELS \<subseteq> dom MODELS"
  shows "\<exists>r. construct_prediction_routine AVAILABLE_MODELS MODELS models = Inr r
           \<and> distinct (map fst r)
           \<and> [] \<notin> snd ` set r
           \<and> (\<forall>k m. count_list (group_of r k) m =
                 (if m \<in> set AVAILABLE_MODELS \<and> MODELS m = Some k
                  then count_list (requested models) m else 0))"
proof -
  from routine_loop_total [OF assms]
  obtain r where r: "routine_loop AVAILABLE_MODELS MODELS (requested models) [] = Inr r"
    by blast
  have "distinct (map fst r)"
    using routine_loop_distinct [OF r] by simp
  moreover have "[] \<notin> snd ` set r"
    using routine_loop_nonempty [OF r] by simp
  moreover have "count_list (group_of r k) m =
      (if m \<in> set AVAILABLE_MODELS \<and> MODELS m = Some k
       then count_list (requested models) m else 0)" for k m
    using routine_loop_count [OF r, of k m] by (simp add: group_of_def)
  ultimately show ?thesis
    using r by (simp add: construct_prediction_routine_def)
qed

text \<open>
  Witness for C2, amended: Scenario C of the spec, two valid identifiers of one spacing and
  an unknown one between them.
\<close>

theorem routine_partition_witness:
  "\<exists>r. construct_prediction_routine [''valid_a'', ''valid_b'']
          [''valid_a'' \<mapsto> [3, 3, 3 :: nat], ''valid_b'' \<mapsto> [3, 3, 3]]
          (StrList [''valid_a'', ''unknown_x'', ''valid_b'']) = Inr r
       \<and> distinct (map fst r)
       \<and> count_list (group_of r [3, 3, 3]) ''valid_a'' = 1
       \<and> count_list (group_of r [3, 3, 3]) ''unknown_x'' = 0"
  using routine_partition [of "[''valid_a'', ''valid_b'']"
      "[''valid_a'' \<mapsto> [3, 3, 3 :: nat], ''valid_b'' \<mapsto> [3, 3, 3]]"
      "StrList [''valid_a'', ''unknown_x'', ''valid_b'']"]
  by auto

section \<open>Placing chunks\<close>

lemma ndindex_iff: "i \<in> set (ndindex sh) \<longleftrightarrow> list_all2 (<) i sh"
proof (induction sh arbitrary: i)
  case Nil
  then show ?case by auto
next
  case (Cons d ds)
  show ?case
  proof (cases i)
    case Nil
    then show ?thesis by auto
  next
    case (Cons a list)
    have "a # list \<in> (#) x ` set (ndindex ds) \<longleftrightarrow> x = a \<and> list_all2 (<) list ds" for x
      using Cons.IH [of list] by auto
    then show ?thesis using Cons by auto
  qed
qed

lemma place_chunk_Inr_iff:
  "(\<exists>A'. place_chunk A cp = Inr A') \<longleftrightarrow> chunk_fits (shape A) cp"
  by (auto simp: place_chunk_def setitem_def chunk_fits_def chunk_region_def expand_dims0_def Let_def)

lemma place_chunk_Inr:
  assumes "place_chunk A cp = Inr A'"
  shows "shape A' = shape A"
    and "item A' i = (if in_region (chunk_region (shape A) cp) i
                      then chunk_value (shape A) cp i else item A i)"
  using assms
  by (auto simp: place_chunk_def setitem_def chunk_region_def chunk_value_def expand_dims0_def
      Let_def split: if_splits)

lemma place_all_shape: "place_all A cps = Inr A' \<Longrightarrow> shape A' = shape A"
proof (induction cps arbitrary: A)
  case Nil
  then show ?case by simp
next
  case (Cons cp cps)
  then obtain A1 where s: "place_chunk A cp = Inr A1" and r: "place_all A1 cps = Inr A'"
    by (auto split: sum.splits)
  from Cons.IH [OF r] place_chunk_Inr(1) [OF s] show ?case by simp
qed

lemma place_all_frame:
  "place_all A cps = Inr A' \<Longrightarrow> \<not> written cps (shape A) i \<Longrightarrow> item A' i = item A i"
proof (induction cps arbitrary: A)
  case Nil
  then show ?case by simp
next
  case (Cons cp cps)
  from Cons.prems(1) obtain A1 where s: "place_chunk A cp = Inr A1"
    and r: "place_all A1 cps = Inr A'"
    by (auto split: sum.splits)
  have sh: "shape A1 = shape A" by (rule place_chunk_Inr(1) [OF s])
  from Cons.prems(2) have nw: "\<not> written cps (shape A1) i"
    and nr: "\<not> in_region (chunk_region (shape A) cp) i"
    by (simp_all add: written_def sh)
  from Cons.IH [OF r nw] place_chunk_Inr(2) [OF s, of i] nr show ?case by simp
qed

lemma place_all_Inr_iff:
  "(\<exists>A'. place_all A cps = Inr A') \<longleftrightarrow> list_all (chunk_fits (shape A)) cps"
proof (induction cps arbitrary: A)
  case Nil
  then show ?case by simp
next
  case (Cons cp cps)
  show ?case
  proof (cases "place_chunk A cp")
    case (Inl e)
    with place_chunk_Inr_iff [of A cp] show ?thesis by auto
  next
    case (Inr A1)
    with place_chunk_Inr_iff [of A cp] have f: "chunk_fits (shape A) cp" by auto
    have sh: "shape A1 = shape A" by (rule place_chunk_Inr(1) [OF Inr])
    from Cons.IH [of A1] Inr f sh show ?thesis by simp
  qed
qed

lemma place_all_indep:
  "place_all A cps = Inr A' \<Longrightarrow> shape B = shape A \<Longrightarrow>
   \<exists>B'. place_all B cps = Inr B' \<and>
     (\<forall>i. written cps (shape A) i \<or> item A i = item B i \<longrightarrow> item A' i = item B' i)"
proof (induction cps arbitrary: A B)
  case Nil
  then show ?case by (simp add: written_def)
next
  case (Cons cp cps)
  from Cons.prems(1) obtain A1 where s: "place_chunk A cp = Inr A1"
    and r: "place_all A1 cps = Inr A'"
    by (auto split: sum.splits)
  from s place_chunk_Inr_iff [of A cp] have "chunk_fits (shape B) cp"
    using Cons.prems(2) by auto
  with place_chunk_Inr_iff [of B cp] obtain B1 where sB: "place_chunk B cp = Inr B1" by auto
  have shA: "shape A1 = shape A" by (rule place_chunk_Inr(1) [OF s])
  have shB: "shape B1 = shape A1" using place_chunk_Inr(1) [OF sB] shA Cons.prems(2) by simp
  from Cons.IH [OF r shB] obtain B' where rB: "place_all B1 cps = Inr B'"
    and eq: "\<forall>i. written cps (shape A1) i \<or> item A1 i = item B1 i \<longrightarrow> item A' i = item B' i"
    by blast
  have "item A' i = item B' i"
    if "written (cp # cps) (shape A) i \<or> item A i = item B i" for i
  proof -
    have "written cps (shape A1) i \<or> item A1 i = item B1 i"
      using that place_chunk_Inr(2) [OF s, of i] place_chunk_Inr(2) [OF sB, of i] Cons.prems(2) shA
      by (auto simp: written_def)
    with eq show ?thesis by blast
  qed
  with sB rB show ?case by simp
qed

lemma place_all_agree:
  assumes "place_all A cps = Inr A'"
    and "\<forall>cp \<in> set cps. \<forall>i. in_region (chunk_region (shape A) cp) i \<longrightarrow> chunk_value (shape A) cp i = f i"
    and "written cps (shape A) i"
  shows "item A' i = f i"
  using assms
proof (induction cps arbitrary: A)
  case Nil
  then show ?case by (simp add: written_def)
next
  case (Cons cp cps)
  from Cons.prems(1) obtain A1 where s: "place_chunk A cp = Inr A1"
    and r: "place_all A1 cps = Inr A'"
    by (auto split: sum.splits)
  have shA: "shape A1 = shape A" by (rule place_chunk_Inr(1) [OF s])
  show ?case
  proof (cases "written cps (shape A) i")
    case True
    with Cons.IH [OF r] Cons.prems(2) shA show ?thesis by simp
  next
    case False
    with Cons.prems(3) have ir: "in_region (chunk_region (shape A) cp) i"
      by (simp add: written_def)
    from False place_all_frame [OF r] shA have "item A' i = item A1 i" by simp
    also have "\<dots> = chunk_value (shape A) cp i"
      using place_chunk_Inr(2) [OF s, of i] ir by simp
    also have "\<dots> = f i" using Cons.prems(2) ir by simp
    finally show ?thesis .
  qed
qed

lemma unsqueeze_squeeze:
  "list_all2 (<) i sh \<Longrightarrow> unsqueeze_index sh (squeeze_index sh i) = i"
  by (induction sh i rule: squeeze_index.induct) auto

lemma squeeze_index_bounds:
  "list_all2 (<) i sh \<Longrightarrow> list_all2 (<) (squeeze_index sh i) (filter (\<lambda>d. d \<noteq> 1) sh)"
  by (induction sh i rule: squeeze_index.induct) auto

lemma unsqueeze_index_bounds:
  "list_all2 (<) j (filter (\<lambda>d. d \<noteq> 1) sh) \<Longrightarrow> list_all2 (<) (unsqueeze_index sh j) sh"
proof (induction sh arbitrary: j)
  case Nil
  then show ?case by simp
next
  case (Cons d ds)
  then show ?case by (cases j) (auto split: if_splits)
qed

lemma unsqueeze_index_id:
  "1 \<notin> set sh \<Longrightarrow> length j = length sh \<Longrightarrow> unsqueeze_index sh j = j"
proof (induction sh arbitrary: j)
  case Nil
  then show ?case by simp
next
  case (Cons d ds)
  then show ?case by (cases j) auto
qed

lemma reconstruct_Inr:
  assumes "reconstruct_array_from_chunks g chunks chunk_positions original_shape = Inr R"
  obtains A where "chunks \<noteq> []"
    and "place_all (np_empty g original_shape) (zip chunks chunk_positions) = Inr A"
    and "R = squeeze A"
  using assms
  by (auto simp: reconstruct_array_from_chunks_def split: list.splits sum.splits)

lemma reconstruct_success_iff:
  "(\<exists>R. reconstruct_array_from_chunks g chunks chunk_positions original_shape = Inr R)
   \<longleftrightarrow> chunks \<noteq> [] \<and> list_all (chunk_fits original_shape) (zip chunks chunk_positions)"
proof (cases chunks)
  case Nil
  then show ?thesis by (simp add: reconstruct_array_from_chunks_def)
next
  case (Cons c cs)
  have "(\<exists>R. reconstruct_array_from_chunks g chunks chunk_positions original_shape = Inr R)
        \<longleftrightarrow> (\<exists>A. place_all (np_empty g original_shape) (zip chunks chunk_positions) = Inr A)"
    using Cons by (auto simp: reconstruct_array_from_chunks_def split: sum.splits)
  with place_all_Inr_iff [of "np_empty g original_shape" "zip chunks chunk_positions"] Cons
  show ?thesis by (simp add: np_empty_def)
qed

text \<open>
  C10. The output is allocated uninitialised. Whenever a call returns, the call on the same
  inputs with any other memory content \<open>g'\<close> returns too, with the same shape; if the
  destination regions cover every index of the output shape, the two results are equal; at
  an index that no region covers, each result holds the content of its own memory, so
  the two runs differ there as soon as the memories do.
\<close>

theorem uninitialised_output:
  assumes "reconstruct_array_from_chunks g chunks chunk_positions original_shape = Inr R"
  shows "\<exists>R'. reconstruct_array_from_chunks g' chunks chunk_positions original_shape = Inr R'
           \<and> shape R' = shape R
           \<and> (list_all (written (zip chunks chunk_positions) original_shape)
                 (ndindex original_shape) \<longrightarrow> array_equal R R')
           \<and> (\<forall>i \<in> set (ndindex original_shape).
                 \<not> written (zip chunks chunk_positions) original_shape i \<longrightarrow>
                 item R (squeeze_index original_shape i) = g i
                 \<and> item R' (squeeze_index original_shape i) = g' i)"
proof -
  let ?cps = "zip chunks chunk_positions"
  let ?sh = original_shape
  from assms obtain A where ne: "chunks \<noteq> []"
    and A: "place_all (np_empty g ?sh) ?cps = Inr A" and R: "R = squeeze A"
    by (rule reconstruct_Inr)
  have shA: "shape A = ?sh" using place_all_shape [OF A] by (simp add: np_empty_def)
  from place_all_indep [OF A, of "np_empty g' ?sh"]
  obtain A' where A': "place_all (np_empty g' ?sh) ?cps = Inr A'"
    and eq: "\<forall>i. written ?cps ?sh i \<or> g i = g' i \<longrightarrow> item A i = item A' i"
    by (auto simp: np_empty_def)
  have shA': "shape A' = ?sh" using place_all_shape [OF A'] by (simp add: np_empty_def)
  define R' where "R' = squeeze A'"
  have run': "reconstruct_array_from_chunks g' chunks chunk_positions ?sh = Inr R'"
    using ne A' by (auto simp: reconstruct_array_from_chunks_def R'_def split: list.splits)
  have shR: "shape R' = shape R" by (simp add: R R'_def squeeze_def shA shA')
  have cov: "array_equal R R'" if all: "list_all (written ?cps ?sh) (ndindex ?sh)"
  proof -
    have "item R j = item R' j" if j: "j \<in> set (ndindex (shape R))" for j
    proof -
      from j have "list_all2 (<) j (filter (\<lambda>d. d \<noteq> 1) ?sh)"
        by (simp add: ndindex_iff R squeeze_def shA)
      then have "unsqueeze_index ?sh j \<in> set (ndindex ?sh)"
        by (simp add: ndindex_iff unsqueeze_index_bounds)
      with all have "written ?cps ?sh (unsqueeze_index ?sh j)"
        by (simp add: list_all_iff)
      with eq show ?thesis by (simp add: R R'_def squeeze_def shA shA')
    qed
    with shR show ?thesis by (simp add: array_equal_def list_all_iff)
  qed
  have unc: "item R (squeeze_index ?sh i) = g i \<and> item R' (squeeze_index ?sh i) = g' i"
    if i: "i \<in> set (ndindex ?sh)" and nw: "\<not> written ?cps ?sh i" for i
  proof -
    from i have u: "unsqueeze_index ?sh (squeeze_index ?sh i) = i"
      by (simp add: ndindex_iff unsqueeze_squeeze)
    from place_all_frame [OF A, of i] nw have "item A i = g i" by (simp add: np_empty_def)
    moreover from place_all_frame [OF A', of i] nw have "item A' i = g' i"
      by (simp add: np_empty_def)
    ultimately show ?thesis by (simp add: R R'_def squeeze_def shA shA' u)
  qed
  from run' shR cov unc show ?thesis by blast
qed

section \<open>The uniform grid\<close>

lemma chunk_counts_Inr:
  "\<forall>d \<in> set sh. 0 < cnt d \<Longrightarrow> chunk_counts cnt sh = Inr (map (\<lambda>d. (d, cnt d)) sh)"
  by (induction sh) auto

lemma blockdims_uniform:
  assumes "0 < d" "n dvd d"
  shows "blockdims d (d div n) = Inr (replicate n (d div n))"
proof -
  from assms obtain e where d: "d = n * e" by (auto elim: dvdE)
  with assms(1) have "0 < n" "0 < e" by auto
  with d show ?thesis by (simp add: blockdims_def)
qed

lemma normalize_chunks_Inr:
  "\<forall>d \<in> set sh. 0 < d \<and> cnt d dvd d \<Longrightarrow>
   normalize_chunks sh (map (\<lambda>d. (d, cnt d)) sh)
     = Inr (map (\<lambda>d. replicate (cnt d) (d div cnt d)) sh)"
  by (induction sh) (auto simp: blockdims_uniform)

lemma zip_map_same: "zip (map f xs) xs = map (\<lambda>x. (f x, x)) xs"
  by (induction xs) auto

lemma in_region_nth:
  "in_region reg i \<longleftrightarrow>
   length i = length reg \<and> (\<forall>k < length reg. fst (reg ! k) \<le> i ! k \<and> i ! k < fst (reg ! k) + snd (reg ! k))"
  by (auto simp: in_region_def list_all2_conv_all_nth split_beta)

lemma block_shape_uniform:
  assumes "list_all2 (<) loc (map cnt sh)"
  shows "map2 (\<lambda>bs j. bs ! j) (uniform_blocks cnt sh) loc = extents cnt sh"
proof (rule nth_equalityI)
  from assms have len: "length loc = length sh" by (auto dest: list_all2_lengthD)
  then show "length (map2 (\<lambda>bs j. bs ! j) (uniform_blocks cnt sh) loc) = length (extents cnt sh)"
    by (simp add: uniform_blocks_def extents_def)
  fix k assume "k < length (map2 (\<lambda>bs j. bs ! j) (uniform_blocks cnt sh) loc)"
  with len have k: "k < length sh" by (simp add: uniform_blocks_def)
  with assms len have "loc ! k < cnt (sh ! k)" by (auto simp: list_all2_conv_all_nth)
  with k len show "map2 (\<lambda>bs j. bs ! j) (uniform_blocks cnt sh) loc ! k = extents cnt sh ! k"
    by (simp add: uniform_blocks_def extents_def)
qed

lemma block_offsets_uniform:
  assumes "list_all2 (<) loc (map cnt sh)"
  shows "map2 (\<lambda>bs j. sum_list (take j bs)) (uniform_blocks cnt sh) loc
           = map2 (*) loc (extents cnt sh)"
proof (rule nth_equalityI)
  from assms have len: "length loc = length sh" by (auto dest: list_all2_lengthD)
  then show "length (map2 (\<lambda>bs j. sum_list (take j bs)) (uniform_blocks cnt sh) loc)
               = length (map2 (*) loc (extents cnt sh))"
    by (simp add: uniform_blocks_def extents_def)
  fix k assume "k < length (map2 (\<lambda>bs j. sum_list (take j bs)) (uniform_blocks cnt sh) loc)"
  with len have k: "k < length sh" by (simp add: uniform_blocks_def)
  with assms len have "loc ! k < cnt (sh ! k)" by (auto simp: list_all2_conv_all_nth)
  with k len show "map2 (\<lambda>bs j. sum_list (take j bs)) (uniform_blocks cnt sh) loc ! k
                     = map2 (*) loc (extents cnt sh) ! k"
    by (simp add: uniform_blocks_def extents_def sum_list_replicate min_def)
qed

lemma uniform_region:
  assumes loc: "list_all2 (<) loc (map cnt sh)"
    and cnt: "\<forall>d \<in> set sh. cnt d dvd d"
    and len: "length cs = length sh" and cs: "cs = extents cnt sh"
  shows "dest_region sh (chunk_slices loc cs) = map2 (\<lambda>p e. (p * e, e)) loc cs"
proof (rule nth_equalityI)
  from loc have ll: "length loc = length sh" by (auto dest: list_all2_lengthD)
  show "length (dest_region sh (chunk_slices loc cs)) = length (map2 (\<lambda>p e. (p * e, e)) loc cs)"
    using ll len by (simp add: dest_region_def chunk_slices_def)
  fix k assume "k < length (dest_region sh (chunk_slices loc cs))"
  with ll len have k: "k < length sh" by (simp add: dest_region_def chunk_slices_def)
  with loc ll have lt: "loc ! k < cnt (sh ! k)" by (auto simp: list_all2_conv_all_nth)
  from k cnt have "cnt (sh ! k) dvd sh ! k" by simp
  then obtain e where e: "sh ! k = cnt (sh ! k) * e" by (auto elim: dvdE)
  have csk: "cs ! k = sh ! k div cnt (sh ! k)" using k cs by (simp add: extents_def)
  from lt have pos: "0 < cnt (sh ! k)" by simp
  from e pos have ce: "cs ! k = e" unfolding csk
    by (metis nonzero_mult_div_cancel_left less_numeral_extra(3))
  from lt have "Suc (loc ! k) \<le> cnt (sh ! k)" by simp
  then have "Suc (loc ! k) * e \<le> cnt (sh ! k) * e" by (rule mult_le_mono1)
  with e ce have fit: "loc ! k * cs ! k + cs ! k \<le> sh ! k" by simp
  have "dest_region sh (chunk_slices loc cs) ! k
          = clip_slice (sh ! k) (loc ! k * cs ! k, loc ! k * cs ! k + cs ! k)"
    using k ll len by (simp add: dest_region_def chunk_slices_def nth_append)
  also have "\<dots> = (loc ! k * cs ! k, cs ! k)"
    using fit by (simp add: clip_slice_def min_def)
  finally show "dest_region sh (chunk_slices loc cs) ! k = map2 (\<lambda>p e. (p * e, e)) loc cs ! k"
    using k ll len by simp
qed

lemma broadcastable_refl: "broadcastable cs cs"
  by (simp add: broadcastable_def strip_count_def list_all2_same)

lemma source_index_same:
  "length t = length cs \<Longrightarrow> source_index cs t = map2 (\<lambda>c x. if c = 1 then 0 else x) cs t"
  by (simp add: source_index_def strip_count_def)

lemma extents_batch: "cnt 1 = 1 \<Longrightarrow> extents cnt (1 # sh) = 1 # extents cnt sh"
  by (simp add: extents_def)

lemma uniform_chunk_shape:
  assumes "list_all2 (<) loc (map cnt (1 # sh))" and "cnt 1 = 1"
  shows "1 # shape (drop_batch_axis (block A (uniform_blocks cnt (1 # sh)) loc))
           = extents cnt (1 # sh)"
proof -
  have "shape (block A (uniform_blocks cnt (1 # sh)) loc) = extents cnt (1 # sh)"
    using block_shape_uniform [OF assms(1)] by (simp add: block_def)
  then show ?thesis
    using extents_batch [of cnt, OF assms(2)] by (simp add: drop_batch_axis_def)
qed

lemma uniform_chunk_region:
  assumes loc: "list_all2 (<) loc (map cnt (1 # sh))"
    and cnt: "\<forall>d \<in> set (1 # sh). cnt d dvd d"
  shows "chunk_region (1 # sh) (drop_batch_axis (block A (uniform_blocks cnt (1 # sh)) loc), loc)
           = map2 (\<lambda>p e. (p * e, e)) loc (extents cnt (1 # sh))"
proof -
  from cnt have c1: "cnt 1 = 1" by simp
  have len: "length (extents cnt (1 # sh)) = length (1 # sh)" by (simp add: extents_def)
  show ?thesis
    unfolding chunk_region_def fst_conv snd_conv uniform_chunk_shape [of loc cnt, OF loc c1]
    by (rule uniform_region [OF loc cnt len refl])
qed

lemma uniform_chunk_fits:
  assumes loc: "list_all2 (<) loc (map cnt (1 # sh))"
    and cnt: "\<forall>d \<in> set (1 # sh). cnt d dvd d"
  shows "chunk_fits (1 # sh) (drop_batch_axis (block A (uniform_blocks cnt (1 # sh)) loc), loc)"
proof -
  from cnt have c1: "cnt 1 = 1" by simp
  from loc have ll: "length loc = Suc (length sh)" by (auto dest: list_all2_lengthD)
  have len: "length (extents cnt (1 # sh)) = Suc (length sh)" by (simp add: extents_def)
  have snd_reg: "map snd (map2 (\<lambda>p e. (p * e, e)) loc (extents cnt (1 # sh))) = extents cnt (1 # sh)"
    using ll len by (intro nth_equalityI) auto
  show ?thesis
    unfolding chunk_fits_def uniform_chunk_region [OF loc cnt]
    unfolding fst_conv snd_conv uniform_chunk_shape [of loc cnt, OF loc c1] snd_reg
    using ll len by (simp add: chunk_slices_def broadcastable_refl)
qed

lemma uniform_chunk_value:
  assumes loc: "list_all2 (<) loc (map cnt (1 # sh))"
    and cnt: "\<forall>d \<in> set (1 # sh). cnt d dvd d"
    and reg: "in_region (chunk_region (1 # sh)
                (drop_batch_axis (block A (uniform_blocks cnt (1 # sh)) loc), loc)) i"
  shows "chunk_value (1 # sh) (drop_batch_axis (block A (uniform_blocks cnt (1 # sh)) loc), loc) i
           = item A i"
proof -
  let ?es = "extents cnt (1 # sh)"
  let ?starts = "map2 (*) loc ?es"
  let ?src = "map2 (\<lambda>c x. if c = 1 then 0 else x) ?es (map2 (-) i ?starts)"
  from cnt have c1: "cnt 1 = 1" by simp
  from loc have ll: "length loc = Suc (length sh)" by (auto dest: list_all2_lengthD)
  have len: "length ?es = Suc (length sh)" by (simp add: extents_def)
  note region = uniform_chunk_region [OF loc cnt, of A]
  from reg have li: "length i = Suc (length sh)"
    and bounds: "\<forall>k \<le> length sh. loc ! k * ?es ! k \<le> i ! k \<and> i ! k < loc ! k * ?es ! k + ?es ! k"
    unfolding region in_region_nth using ll len by (auto simp: less_Suc_eq_le)
  have starts: "map fst (map2 (\<lambda>p e. (p * e, e)) loc ?es) = ?starts"
    using ll len by (intro nth_equalityI) auto
  have src: "source_index ?es (map2 (-) i ?starts) = ?src"
    using li ll len by (intro source_index_same) simp
  have hd0: "0 # tl ?src = ?src"
  proof -
    obtain x xs where i: "i = x # xs" using li by (cases i) auto
    obtain p ps where l: "loc = p # ps" using ll by (cases loc) auto
    show ?thesis
      unfolding extents_batch [of cnt, OF c1] i l by simp
  qed
  have sum: "map2 (+) ?starts ?src = i"
  proof (rule nth_equalityI)
    show "length (map2 (+) ?starts ?src) = length i" using li ll len by simp
    fix k assume "k < length (map2 (+) ?starts ?src)"
    with li ll len have k: "k \<le> length sh" by simp
    with bounds have b: "loc ! k * ?es ! k \<le> i ! k" "i ! k < loc ! k * ?es ! k + ?es ! k"
      by auto
    from k li ll len have "map2 (+) ?starts ?src ! k
        = loc ! k * ?es ! k + (if ?es ! k = 1 then 0 else i ! k - loc ! k * ?es ! k)"
      by simp
    also from b have "\<dots> = i ! k" by auto
    finally show "map2 (+) ?starts ?src ! k = i ! k" .
  qed
  have "chunk_value (1 # sh) (drop_batch_axis (block A (uniform_blocks cnt (1 # sh)) loc), loc) i
          = item (block A (uniform_blocks cnt (1 # sh)) loc) (0 # tl ?src)"
    unfolding chunk_value_def region
    unfolding fst_conv snd_conv uniform_chunk_shape [of loc cnt, OF loc c1] starts src
    by (simp add: drop_batch_axis_def)
  also have "\<dots> = item A (map2 (+) ?starts ?src)"
    unfolding hd0 by (simp only: block_def ndarray.select_convs block_offsets_uniform [OF loc])
  finally show ?thesis unfolding sum .
qed

lemma uniform_cover:
  assumes i: "list_all2 (<) i sh" and cnt: "\<forall>d \<in> set sh. cnt d dvd d"
  shows "list_all2 (<) (map2 (div) i (extents cnt sh)) (map cnt sh)
         \<and> in_region (map2 (\<lambda>p e. (p * e, e)) (map2 (div) i (extents cnt sh)) (extents cnt sh)) i"
proof -
  let ?es = "extents cnt sh"
  let ?loc = "map2 (div) i ?es"
  from i have li: "length i = length sh" by (auto dest: list_all2_lengthD)
  have len: "length ?es = length sh" by (simp add: extents_def)
  have key: "i ! k div ?es ! k < cnt (sh ! k)
      \<and> i ! k div ?es ! k * ?es ! k \<le> i ! k
      \<and> i ! k < i ! k div ?es ! k * ?es ! k + ?es ! k" if k: "k < length sh" for k
  proof -
    from i k li have lt: "i ! k < sh ! k" by (auto simp: list_all2_conv_all_nth)
    from k cnt have "cnt (sh ! k) dvd sh ! k" by simp
    then obtain e where e: "sh ! k = cnt (sh ! k) * e" by (auto elim: dvdE)
    from lt e have pos: "0 < cnt (sh ! k)" "0 < e" by (auto intro: Nat.gr0I)
    have "?es ! k = sh ! k div cnt (sh ! k)" using k by (simp add: extents_def)
    with e pos have ek: "?es ! k = e"
      by (metis nonzero_mult_div_cancel_left less_numeral_extra(3))
    from lt e have "i ! k < cnt (sh ! k) * e" by simp
    then have "i ! k div e < cnt (sh ! k)" by (rule less_mult_imp_div_less)
    moreover have "i ! k div e * e \<le> i ! k" by simp
    moreover have "i ! k < i ! k div e * e + e"
      using pos(2) by (metis dividend_less_div_times mult.commute add.commute)
    ultimately show ?thesis unfolding ek by simp
  qed
  have "list_all2 (<) ?loc (map cnt sh)"
    using li len key by (auto simp: list_all2_conv_all_nth)
  moreover have "in_region (map2 (\<lambda>p e. (p * e, e)) ?loc ?es) i"
    unfolding in_region_nth using li len key by auto
  ultimately show ?thesis by simp
qed

section \<open>Round trip\<close>

lemma uniform_blocks_grid: "map length (uniform_blocks cnt sh) = map cnt sh"
  by (simp add: uniform_blocks_def)

lemma ndindex_nonempty: "\<forall>n \<in> set ns. 0 < n \<Longrightarrow> ndindex ns \<noteq> []"
proof -
  assume "\<forall>n \<in> set ns. 0 < n"
  then have "list_all2 (<) (replicate (length ns) 0) ns"
    by (auto simp: list_all2_conv_all_nth)
  then have "replicate (length ns) 0 \<in> set (ndindex ns)" by (simp add: ndindex_iff)
  then show ?thesis by auto
qed

text \<open>
  C1, amended. For a volume whose axes all have length at least 2 and chunk counts that are
  positive and divide their axis length (the batch axis of length 1 included), cutting the
  volume into the grid of blocks, passing every block on unchanged and reconstructing
  returns an array equal to the volume, whatever the uninitialised memory held.
\<close>

theorem roundtrip_divisible:
  assumes ax: "\<forall>d \<in> set (shape V). 2 \<le> d"
    and cnt: "\<forall>d \<in> set (1 # shape V). 0 < cnt d \<and> cnt d dvd d"
  shows "\<exists>R. predict_from_array_by_iterator g cnt drop_batch_axis V = Inr R \<and> array_equal R V"
proof -
  define sh where "sh = shape V"
  define V' where "V' = expand_dims0 V"
  define bss where "bss = uniform_blocks cnt (1 # sh)"
  define locs where "locs = ndindex (map cnt (1 # sh))"
  define seg where "seg = (\<lambda>loc. drop_batch_axis (block V' bss loc))"
  define cps where "cps = map (\<lambda>loc. (seg loc, loc)) locs"
  have shV': "shape V' = 1 # sh" by (simp add: V'_def expand_dims0_def sh_def)
  from cnt have pos: "\<forall>d \<in> set (1 # sh). 0 < cnt d" and dv: "\<forall>d \<in> set (1 # sh). cnt d dvd d"
    by (simp_all add: sh_def)
  from ax have dpos: "\<forall>d \<in> set (1 # sh). 0 < d" by (auto simp: sh_def)
  from ax have no1: "1 \<notin> set sh" by (auto simp: sh_def)
  have cc: "chunk_counts cnt (1 # sh) = Inr (map (\<lambda>d. (d, cnt d)) (1 # sh))"
    by (rule chunk_counts_Inr [OF pos])
  have nc: "normalize_chunks (1 # sh) (map (\<lambda>d. (d, cnt d)) (1 # sh)) = Inr bss"
    unfolding bss_def uniform_blocks_def
    by (rule normalize_chunks_Inr) (use dpos dv in blast)
  have locs_ne: "locs \<noteq> []"
    unfolding locs_def by (rule ndindex_nonempty) (use pos in auto)
  have run: "predict_from_array_by_iterator g cnt drop_batch_axis V
               = reconstruct_array_from_chunks g (map seg locs) locs (1 # sh)"
    unfolding predict_from_array_by_iterator_def Let_def V'_def [symmetric]
    unfolding shV' cc sum.case nc
    by (simp only: bss_def uniform_blocks_grid locs_def seg_def)
  have zip: "zip (map seg locs) locs = cps"
    by (simp add: cps_def zip_map_same)
  have loc_ok: "list_all2 (<) loc (map cnt (1 # sh))" if "loc \<in> set locs" for loc
    using that unfolding locs_def ndindex_iff .
  have fits: "list_all (chunk_fits (1 # sh)) cps"
    unfolding cps_def list_all_iff seg_def bss_def
    using uniform_chunk_fits [OF loc_ok dv] by auto
  then obtain A where A: "place_all (np_empty g (1 # sh)) cps = Inr A"
    using place_all_Inr_iff [of "np_empty g (1 # sh)" cps] by (auto simp: np_empty_def)
  have shA: "shape A = 1 # sh" using place_all_shape [OF A] by (simp add: np_empty_def)
  have val: "\<forall>cp \<in> set cps. \<forall>i. in_region (chunk_region (shape (np_empty g (1 # sh))) cp) i \<longrightarrow>
               chunk_value (shape (np_empty g (1 # sh))) cp i = item V' i"
    unfolding cps_def seg_def bss_def
    using uniform_chunk_value [OF loc_ok dv] by (auto simp: np_empty_def)
  have cover: "written cps (1 # sh) i" if i: "list_all2 (<) i (1 # sh)" for i
  proof -
    let ?loc = "map2 (div) i (extents cnt (1 # sh))"
    from uniform_cover [OF i dv] have l: "list_all2 (<) ?loc (map cnt (1 # sh))"
      and r: "in_region (map2 (\<lambda>p e. (p * e, e)) ?loc (extents cnt (1 # sh))) i"
      by simp_all
    from l have "?loc \<in> set locs" unfolding locs_def ndindex_iff .
    moreover have "in_region (chunk_region (1 # sh) (seg ?loc, ?loc)) i"
      unfolding seg_def bss_def uniform_chunk_region [OF l dv] by (rule r)
    ultimately show ?thesis
      unfolding written_def cps_def list_ex_iff by auto
  qed
  define R where "R = squeeze A"
  have res: "predict_from_array_by_iterator g cnt drop_batch_axis V = Inr R"
    unfolding run reconstruct_array_from_chunks_def zip R_def
    using locs_ne A by (cases locs) auto
  have shR: "shape R = shape V"
    using no1 by (auto simp: R_def squeeze_def shA sh_def [symmetric] filter_id_conv)
  have "item R j = item V j" if j: "j \<in> set (ndindex (shape V))" for j
  proof -
    from j have jb: "list_all2 (<) j sh" by (simp add: ndindex_iff sh_def)
    then have lj: "length j = length sh" by (auto dest: list_all2_lengthD)
    have "item R j = item A (0 # j)"
      by (simp add: R_def squeeze_def shA unsqueeze_index_id [OF no1 lj])
    also have "\<dots> = item V' (0 # j)"
    proof (rule place_all_agree [OF A val])
      show "written cps (shape (np_empty g (1 # sh))) (0 # j)"
        using cover [of "0 # j"] jb by (simp add: np_empty_def)
    qed
    also have "\<dots> = item V j" by (simp add: V'_def expand_dims0_def)
    finally show ?thesis .
  qed
  with shR have "array_equal R V" by (simp add: array_equal_def list_all_iff)
  with res show ?thesis by blast
qed

text \<open>
  Witness for C1, amended: a volume of shape (100, 100, 100) cut into a grid of
  2 by 2 by 2 blocks, as in Scenario A of the spec.
\<close>

theorem roundtrip_divisible_witness:
  "\<exists>R. predict_from_array_by_iterator (\<lambda>_. 0) (\<lambda>d. if d = 100 then 2 else 1) drop_batch_axis
          \<lparr>shape = [100, 100, 100], item = sum_list\<rparr> = Inr R
       \<and> array_equal R \<lparr>shape = [100, 100, 100], item = sum_list\<rparr>"
  using roundtrip_divisible [of "\<lparr>shape = [100, 100, 100], item = sum_list\<rparr>"
      "\<lambda>d. if d = 100 then 2 else 1" "\<lambda>_. 0"]
  by simp

text \<open>
  C1, as the claim states it, fails for an axis of length 5 and a chunk count of 2: the
  extent 2.5 is rejected by the chunking with \<open>ValueError\<close>. Nor does the reconstructor
  invert either way of absorbing the remainder: for blocks of sizes 2, 2, 1 the last block
  is written at index 2 and index 4 stays uninitialised (99 here), and for blocks of
  sizes 2, 3 the last block does not fit its slice.
\<close>

theorem roundtrip_indivisible_counterexample:
  "map_sum id ravel
     (predict_from_array_by_iterator (\<lambda>_. 99) (\<lambda>d. if d = 1 then 1 else 2) drop_batch_axis
        (np_arange 5)) = Inl ValueError
   \<and> map_sum id ravel
       (reconstruct_array_from_chunks (\<lambda>_. 99)
          (map (\<lambda>loc. drop_batch_axis (block (expand_dims0 (np_arange 5)) [ [1], [2, 2, 1]] loc))
             (ndindex [1, 3]))
          (ndindex [1, 3]) [1, 5]) = Inr [0, 1, 4, 3, 99]
   \<and> map_sum id ravel
       (reconstruct_array_from_chunks (\<lambda>_. 99)
          (map (\<lambda>loc. drop_batch_axis (block (expand_dims0 (np_arange 5)) [ [1], [2, 3]] loc))
             (ndindex [1, 2]))
          (ndindex [1, 2]) [1, 5]) = Inl ValueError"
  by code_simp

text \<open>
  C6. The code at an output shape of (1, 2, 1), a volume of shape (2, 1) behind the batch
  axis: the returned array has shape (2), the trailing singleton axis of the volume is gone
  with the batch axis.
\<close>

theorem squeeze_drops_every_singleton_axis:
  "map_sum id shape
     (reconstruct_array_from_chunks (\<lambda>_. 0) [np_full [2, 1] (7 :: nat)] [ [0, 0, 0]] [1, 2, 1])
   = Inr [2]"
  by code_simp

text \<open>
  C5, as the claim states it, fails: chunks of sizes 1, 2, 1 along an axis of length 4 are
  not uniform except for the last, and the call returns an array: the third chunk has
  overwritten half of the second, and index 1 holds uninitialised memory (99 here).
\<close>

theorem irregular_chunks_counterexample:
  "map_sum id ravel
     (reconstruct_array_from_chunks (\<lambda>_. 99)
        [np_full [1] 10, np_full [2] 20, np_full [1] (30 :: nat)]
        [ [0, 0], [0, 1], [0, 2]] [1, 4]) = Inr [10, 99, 30, 20]"
  by code_simp

section \<open>Placement without validation\<close>

lemma slices_within_fits:
  assumes "slices_within sh cp"
  shows "chunk_fits sh cp"
proof -
  let ?cs = "1 # shape (fst cp)"
  let ?sl = "chunk_slices (snd cp) ?cs"
  from assms have lp: "length (snd cp) = length sh" and lc: "length ?cs = length sh"
    and within: "list_all2 (\<lambda>(start, stop) d. stop \<le> d) ?sl sh"
    by (simp_all add: slices_within_def)
  have lsl: "length ?sl = length sh" using lp lc by (simp add: chunk_slices_def)
  have "map snd (dest_region sh ?sl) = ?cs"
  proof (rule nth_equalityI)
    show "length (map snd (dest_region sh ?sl)) = length ?cs"
      using lsl lc by (simp add: dest_region_def)
    fix k assume "k < length (map snd (dest_region sh ?sl))"
    with lsl have k: "k < length sh" by (simp add: dest_region_def)
    have slk: "?sl ! k = (snd cp ! k * ?cs ! k, snd cp ! k * ?cs ! k + ?cs ! k)"
      using k lp lc by (simp add: chunk_slices_def)
    from within k lsl have "snd (?sl ! k) \<le> sh ! k"
      by (auto simp: list_all2_conv_all_nth split_beta)
    with slk have "snd cp ! k * ?cs ! k + ?cs ! k \<le> sh ! k" by simp
    then have "clip_slice (sh ! k) (?sl ! k) = (snd cp ! k * ?cs ! k, ?cs ! k)"
      unfolding slk by (simp add: clip_slice_def min_def)
    then show "map snd (dest_region sh ?sl) ! k = ?cs ! k"
      using k lsl by (simp add: dest_region_def nth_append)
  qed
  then show ?thesis
    using lsl by (simp add: chunk_fits_def chunk_region_def broadcastable_refl)
qed

lemma find_snoc:
  "find P (xs @ [x]) = (case find P xs of None \<Rightarrow> (if P x then Some x else None) | Some y \<Rightarrow> Some y)"
  by (induction xs) auto

lemma place_all_last_writer:
  "place_all A cps = Inr A' \<Longrightarrow>
   item A' i = (case last_writer cps (shape A) i of
                  None \<Rightarrow> item A i | Some cp \<Rightarrow> chunk_value (shape A) cp i)"
proof (induction cps arbitrary: A)
  case Nil
  then show ?case by (simp add: last_writer_def)
next
  case (Cons cp cps)
  from Cons.prems obtain A1 where s: "place_chunk A cp = Inr A1"
    and r: "place_all A1 cps = Inr A'"
    by (auto split: sum.splits)
  have sh: "shape A1 = shape A" by (rule place_chunk_Inr(1) [OF s])
  show ?case
    using Cons.IH [OF r] place_chunk_Inr(2) [OF s, of i]
    by (simp add: sh last_writer_def find_snoc split: option.splits)
qed

text \<open>
  C5, amended. The reconstructor validates no chunk sizes. For a non-empty chunk list in
  which every pair is well ranked and every slice ends inside the output shape, it returns
  an array, of the output shape without its singleton axes, in which every index holds the
  element of the last chunk whose destination region contains it, or uninitialised memory
  when there is none; the sizes may violate the uniform-except-last assumption.
\<close>

theorem no_validation:
  assumes "chunks \<noteq> []"
    and "list_all (slices_within original_shape) (zip chunks chunk_positions)"
  shows "\<exists>R. reconstruct_array_from_chunks g chunks chunk_positions original_shape = Inr R
           \<and> shape R = filter (\<lambda>d. d \<noteq> 1) original_shape
           \<and> (\<forall>i \<in> set (ndindex original_shape).
                 item R (squeeze_index original_shape i) =
                   (case last_writer (zip chunks chunk_positions) original_shape i of
                      None \<Rightarrow> g i
                    | Some cp \<Rightarrow> chunk_value original_shape cp i))"
proof -
  let ?cps = "zip chunks chunk_positions"
  from assms(2) have "list_all (chunk_fits original_shape) ?cps"
    by (auto simp: list_all_iff intro: slices_within_fits)
  with assms(1) obtain R where
    R: "reconstruct_array_from_chunks g chunks chunk_positions original_shape = Inr R"
    using reconstruct_success_iff [of g chunks chunk_positions original_shape] by blast
  then obtain A where A: "place_all (np_empty g original_shape) ?cps = Inr A"
    and RA: "R = squeeze A"
    by (rule reconstruct_Inr)
  have shA: "shape A = original_shape" using place_all_shape [OF A] by (simp add: np_empty_def)
  have "item R (squeeze_index original_shape i) =
          (case last_writer ?cps original_shape i of
             None \<Rightarrow> g i | Some cp \<Rightarrow> chunk_value original_shape cp i)"
    if "i \<in> set (ndindex original_shape)" for i
  proof -
    from that have "unsqueeze_index original_shape (squeeze_index original_shape i) = i"
      by (simp add: ndindex_iff unsqueeze_squeeze)
    then have "item R (squeeze_index original_shape i) = item A i"
      by (simp add: RA squeeze_def shA)
    with place_all_last_writer [OF A, of i] show ?thesis
      by (simp add: np_empty_def split: option.splits)
  qed
  moreover have "shape R = filter (\<lambda>d. d \<noteq> 1) original_shape"
    by (simp add: RA squeeze_def shA)
  ultimately show ?thesis using R by blast
qed

text \<open>
  Witness for C5, amended: the chunks of sizes 1, 2, 1 on an axis of length 4.
\<close>

theorem no_validation_witness:
  "\<exists>R. reconstruct_array_from_chunks (\<lambda>_. 99)
          [np_full [1] 10, np_full [2] 20, np_full [1] (30 :: nat)]
          [ [0, 0], [0, 1], [0, 2]] [1, 4] = Inr R
       \<and> shape R = [4] \<and> item R [1] = 99 \<and> item R [2] = 30"
proof -
  have ne: "[np_full [1] 10, np_full [2] 20, np_full [1] (30 :: nat)] \<noteq> []" by simp
  have w: "list_all (slices_within [1, 4])
      (zip [np_full [1] 10, np_full [2] 20, np_full [1] (30 :: nat)] [ [0, 0], [0, 1], [0, 2]])"
    by code_simp
  have i1: "[0, 1] \<in> set (ndindex [1, 4])" and i2: "[0, 2] \<in> set (ndindex [1, 4])"
    by (simp_all add: ndindex_iff)
  have l1: "last_writer
      (zip [np_full [1] 10, np_full [2] 20, np_full [1] (30 :: nat)] [ [0, 0], [0, 1], [0, 2]])
      [1, 4] [0, 1] = None"
    by code_simp
  have l2: "(case last_writer
      (zip [np_full [1] 10, np_full [2] 20, np_full [1] (30 :: nat)] [ [0, 0], [0, 1], [0, 2]])
      [1, 4] [0, 2] of None \<Rightarrow> 99 | Some cp \<Rightarrow> chunk_value [1, 4] cp [0, 2]) = 30"
    by code_simp
  from no_validation [OF ne w, of "\<lambda>_. 99"] obtain R where
    R: "reconstruct_array_from_chunks (\<lambda>_. 99)
          [np_full [1] 10, np_full [2] 20, np_full [1] (30 :: nat)]
          [ [0, 0], [0, 1], [0, 2]] [1, 4] = Inr R"
    and sh: "shape R = filter (\<lambda>d. d \<noteq> 1) [1, 4]"
    and val: "\<forall>i \<in> set (ndindex [1, 4]). item R (squeeze_index [1, 4] i) =
        (case last_writer
           (zip [np_full [1] 10, np_full [2] 20, np_full [1] (30 :: nat)] [ [0, 0], [0, 1], [0, 2]])
           [1, 4] i of None \<Rightarrow> 99 | Some cp \<Rightarrow> chunk_value [1, 4] cp i)"
    by blast
  from val i1 l1 have "item R [1] = 99" by fastforce
  moreover from val i2 l2 have "item R [2] = 30" by fastforce
  ultimately show ?thesis using R sh by simp
qed

text \<open>
  Witness for C10: chunks of sizes 1, 2, 1 on an axis of length 4 leave index 1 uncovered,
  and the result shows the memory there; two chunks of size 2 cover the axis, and the
  results agree.
\<close>

theorem uninitialised_output_witness:
  "(\<exists>R R'. reconstruct_array_from_chunks (\<lambda>_. 0)
          [np_full [1] 10, np_full [2] 20, np_full [1] (30 :: nat)]
          [ [0, 0], [0, 1], [0, 2]] [1, 4] = Inr R
        \<and> reconstruct_array_from_chunks (\<lambda>_. 1)
          [np_full [1] 10, np_full [2] 20, np_full [1] (30 :: nat)]
          [ [0, 0], [0, 1], [0, 2]] [1, 4] = Inr R'
        \<and> item R [1] = 0 \<and> item R' [1] = 1)
   \<and> (\<exists>R R'. reconstruct_array_from_chunks (\<lambda>_. 0)
          [np_full [2] 10, np_full [2] (20 :: nat)] [ [0, 0], [0, 1]] [1, 4] = Inr R
        \<and> reconstruct_array_from_chunks (\<lambda>_. 1)
          [np_full [2] 10, np_full [2] (20 :: nat)] [ [0, 0], [0, 1]] [1, 4] = Inr R'
        \<and> array_equal R R')"
proof
  let ?cs = "[np_full [1] 10, np_full [2] 20, np_full [1] (30 :: nat)]"
  let ?ps = "[ [0, 0], [0, 1], [0, 2 :: nat]]"
  have "list_all (chunk_fits [1, 4]) (zip ?cs ?ps)" by code_simp
  then obtain R where R: "reconstruct_array_from_chunks (\<lambda>_. 0) ?cs ?ps [1, 4] = Inr R"
    using reconstruct_success_iff [of "\<lambda>_. 0" ?cs ?ps "[1, 4]"] by auto
  have i: "[0, 1] \<in> set (ndindex [1, 4])" by (simp add: ndindex_iff)
  have nw: "\<not> written (zip ?cs ?ps) [1, 4] [0, 1]" by code_simp
  from uninitialised_output [OF R, of "\<lambda>_. 1"] obtain R' where
    R': "reconstruct_array_from_chunks (\<lambda>_. 1) ?cs ?ps [1, 4] = Inr R'"
    and unc: "\<forall>i \<in> set (ndindex [1, 4]). \<not> written (zip ?cs ?ps) [1, 4] i \<longrightarrow>
        item R (squeeze_index [1, 4] i) = 0 \<and> item R' (squeeze_index [1, 4] i) = 1"
    by blast
  from unc i nw have "item R [1] = 0 \<and> item R' [1] = 1" by fastforce
  with R R' show "\<exists>R R'. reconstruct_array_from_chunks (\<lambda>_. 0) ?cs ?ps [1, 4] = Inr R
        \<and> reconstruct_array_from_chunks (\<lambda>_. 1) ?cs ?ps [1, 4] = Inr R'
        \<and> item R [1] = 0 \<and> item R' [1] = 1"
    by blast
next
  let ?cs = "[np_full [2] 10, np_full [2] (20 :: nat)]"
  let ?ps = "[ [0, 0], [0, 1 :: nat]]"
  have "list_all (chunk_fits [1, 4]) (zip ?cs ?ps)" by code_simp
  then obtain R where R: "reconstruct_array_from_chunks (\<lambda>_. 0) ?cs ?ps [1, 4] = Inr R"
    using reconstruct_success_iff [of "\<lambda>_. 0" ?cs ?ps "[1, 4]"] by auto
  have cov: "list_all (written (zip ?cs ?ps) [1, 4]) (ndindex [1, 4])" by code_simp
  from uninitialised_output [OF R, of "\<lambda>_. 1"] cov obtain R' where
    "reconstruct_array_from_chunks (\<lambda>_. 1) ?cs ?ps [1, 4] = Inr R'" "array_equal R R'"
    by blast
  with R show "\<exists>R R'. reconstruct_array_from_chunks (\<lambda>_. 0) ?cs ?ps [1, 4] = Inr R
        \<and> reconstruct_array_from_chunks (\<lambda>_. 1) ?cs ?ps [1, 4] = Inr R'
        \<and> array_equal R R'"
    by blast
qed

section \<open>Merging\<close>

lemma max_index_ge_aux: "(a :: nat) \<le> fold max ks a \<and> (\<forall>k \<in> set ks. k \<le> fold max ks a)"
proof (induction ks arbitrary: a)
  case Nil
  then show ?case by simp
next
  case (Cons x ks)
  from Cons.IH [of "max x a"] show ?case by auto
qed

lemma max_index_ge: "(k, n) \<in> set d \<Longrightarrow> k \<le> max_index d"
  using max_index_ge_aux [of 0 "map fst d"] by (force simp: max_index_def)

lemma offset_remap_collision_free: "collision_free offset_remap"
  unfolding collision_free_def
proof (intro allI impI)
  fix cur :: organ_indices and k :: nat
  assume k: "k \<noteq> 0"
  show "offset_remap cur k \<notin> fst ` set cur"
  proof
    assume "offset_remap cur k \<in> fst ` set cur"
    then obtain n where "(k + max_index cur, n) \<in> set cur"
      by (auto simp: offset_remap_def)
    from max_index_ge [OF this] k show False by simp
  qed
qed

lemma step_priority:
  "current_image v \<noteq> 0 \<Longrightarrow>
   fst (add_model_label_image remap current_image current_dict new_image new_dict) v
     = current_image v"
  by (simp add: add_model_label_image_def)

lemma merge_loop_priority:
  "merge_loop remap get_files fs dir combined ms = Inr combined' \<Longrightarrow> fst combined v \<noteq> 0 \<Longrightarrow>
   fst combined' v = fst combined v"
proof (induction ms arbitrary: combined)
  case Nil
  then show ?case by simp
next
  case (Cons m ms)
  from Cons.prems(1) obtain img where
    run: "merge_loop remap get_files fs dir
            (add_model_label_image remap (fst combined) (snd combined) img (organ_indices m)) ms
          = Inr combined'"
    by (auto split: list.splits sum.splits)
  have keep: "fst (add_model_label_image remap (fst combined) (snd combined) img
                (organ_indices m)) v = fst combined v"
    using Cons.prems(2) by (simp add: add_model_label_image_def)
  from Cons.IH [OF run] keep Cons.prems(2) show ?case by simp
qed

lemma create_Inr:
  assumes "create_multi_model_label_segmentation remap Model get_files fs dir ids
             = Inr (combined, fs')"
  obtains m rest p ps base where "ids = m # rest"
    and "get_files dir (multilabel_prefix (Model m)) nii_suffixes = p # ps"
    and "fs p = Some (VolumeFile base)"
    and "merge_loop remap get_files fs dir (base, organ_indices (Model m)) (map Model rest)
           = Inr combined"
    and "fs' = fs(os_path_join dir ''combined_segmentations.nii.gz'' \<mapsto> VolumeFile (fst combined),
                  os_path_join dir ''combined_segmentations.json'' \<mapsto> JsonFile (snd combined))"
proof (cases ids)
  case Nil
  with assms show ?thesis by (simp add: create_multi_model_label_segmentation_def)
next
  case (Cons m rest)
  with assms obtain p ps where p: "get_files dir (multilabel_prefix (Model m)) nii_suffixes = p # ps"
    by (auto simp: create_multi_model_label_segmentation_def split: list.splits)
  with assms Cons obtain base where b: "ReadImage fs p = Inr base"
    by (auto simp: create_multi_model_label_segmentation_def split: sum.splits)
  then have f: "fs p = Some (VolumeFile base)"
    by (auto simp: ReadImage_def split: option.splits file_content.splits)
  from assms Cons p b have
    "merge_loop remap get_files fs dir (base, organ_indices (Model m)) (map Model rest)
       = Inr combined"
    and "fs' = fs(os_path_join dir ''combined_segmentations.nii.gz'' \<mapsto> VolumeFile (fst combined),
                  os_path_join dir ''combined_segmentations.json'' \<mapsto> JsonFile (snd combined))"
    by (auto simp: create_multi_model_label_segmentation_def Let_def split: sum.splits)
  with Cons p f show ?thesis by (rule that)
qed

text \<open>
  C4. For a collision-free remapping, in a merge step: a voxel with a nonzero accumulator
  label keeps it; a voxel with accumulator label zero and a nonzero overlay label gets the
  overlay label remapped, an index that is not in the accumulator's map. Over the whole
  merge: wherever the first model's volume is nonzero, the combined volume has the first
  model's label.
\<close>

theorem merge_priority:
  assumes "collision_free remap"
  shows "(current_image v \<noteq> 0 \<longrightarrow>
            fst (add_model_label_image remap current_image current_dict new_image new_dict) v
              = current_image v)
         \<and> (current_image v = 0 \<and> new_image v \<noteq> 0 \<longrightarrow>
              fst (add_model_label_image remap current_image current_dict new_image new_dict) v
                = remap current_dict (new_image v)
              \<and> remap current_dict (new_image v) \<notin> fst ` set current_dict)
         \<and> (create_multi_model_label_segmentation remap Model get_files fs dir ids
               = Inr ((img, dict), fs') \<longrightarrow>
             (\<exists>p ps base.
                get_files dir (multilabel_prefix (Model (hd ids))) nii_suffixes = p # ps
                \<and> fs p = Some (VolumeFile base)
                \<and> (\<forall>w. base w \<noteq> 0 \<longrightarrow> img w = base w)))"
proof (intro conjI impI)
  assume "current_image v \<noteq> 0"
  then show "fst (add_model_label_image remap current_image current_dict new_image new_dict) v
               = current_image v"
    by (rule step_priority)
next
  assume a: "current_image v = 0 \<and> new_image v \<noteq> 0"
  then show "fst (add_model_label_image remap current_image current_dict new_image new_dict) v
               = remap current_dict (new_image v)"
    by (simp add: add_model_label_image_def)
  from assms a show "remap current_dict (new_image v) \<notin> fst ` set current_dict"
    by (simp add: collision_free_def)
next
  assume "create_multi_model_label_segmentation remap Model get_files fs dir ids
            = Inr ((img, dict), fs')"
  then obtain m rest p ps base where ids: "ids = m # rest"
    and p: "get_files dir (multilabel_prefix (Model m)) nii_suffixes = p # ps"
    and f: "fs p = Some (VolumeFile base)"
    and loop: "merge_loop remap get_files fs dir (base, organ_indices (Model m)) (map Model rest)
                 = Inr (img, dict)"
    by (auto elim: create_Inr)
  have "img w = base w" if "base w \<noteq> 0" for w
    using merge_loop_priority [OF loop, of w] that by simp
  with ids p f show "\<exists>p ps base.
      get_files dir (multilabel_prefix (Model (hd ids))) nii_suffixes = p # ps
      \<and> fs p = Some (VolumeFile base) \<and> (\<forall>w. base w \<noteq> 0 \<longrightarrow> img w = base w)"
    by auto
qed

lemma merge_loop_missing:
  assumes "\<forall>x \<in> set pre. \<exists>p ps img.
             get_files dir (multilabel_prefix x) nii_suffixes = p # ps \<and> fs p = Some (VolumeFile img)"
    and "get_files dir (multilabel_prefix m) nii_suffixes = []"
  shows "merge_loop remap get_files fs dir combined (pre @ m # post) = Inl IndexError"
  using assms(1)
proof (induction pre arbitrary: combined)
  case Nil
  from assms(2) show ?case by simp
next
  case (Cons x pre)
  from Cons.prems obtain p ps img where
    "get_files dir (multilabel_prefix x) nii_suffixes = p # ps" "fs p = Some (VolumeFile img)"
    by auto
  moreover from Cons.prems have "\<forall>x \<in> set pre. \<exists>p ps img.
      get_files dir (multilabel_prefix x) nii_suffixes = p # ps \<and> fs p = Some (VolumeFile img)"
    by simp
  ultimately show ?case using Cons.IH by (simp add: ReadImage_def)
qed

text \<open>
  C7, amended. When no file matches the prefix of some requested model, and the files of
  all models before it are found and hold a volume, the function fails with the
  \<open>IndexError\<close> of indexing the empty list of matching files.
\<close>

theorem missing_file_IndexError:
  assumes ids: "model_identifiers = pre @ m # post"
    and found: "\<forall>x \<in> set pre. \<exists>p ps img.
       get_files dir (multilabel_prefix (Model x)) nii_suffixes = p # ps
       \<and> fs p = Some (VolumeFile img)"
    and missing: "get_files dir (multilabel_prefix (Model m)) nii_suffixes = []"
  shows "create_multi_model_label_segmentation remap Model get_files fs dir model_identifiers
           = Inl IndexError"
proof (cases pre)
  case Nil
  with ids missing show ?thesis
    by (simp add: create_multi_model_label_segmentation_def)
next
  case (Cons x pre')
  from found Cons obtain p ps img where
    p: "get_files dir (multilabel_prefix (Model x)) nii_suffixes = p # ps"
    and f: "fs p = Some (VolumeFile img)"
    by auto
  from found Cons have rest: "\<forall>y \<in> set (map Model pre'). \<exists>p ps img.
      get_files dir (multilabel_prefix y) nii_suffixes = p # ps \<and> fs p = Some (VolumeFile img)"
    by simp
  from merge_loop_missing [where pre = "map Model pre'" and m = "Model m" and fs = fs
      and get_files = get_files and dir = dir and remap = remap
      and combined = "(img, organ_indices (Model x))" and post = "map Model post", OF rest missing]
  have "merge_loop remap get_files fs dir (img, organ_indices (Model x))
          (map Model (pre' @ m # post)) = Inl IndexError"
    by simp
  with ids Cons p f show ?thesis
    by (simp add: create_multi_model_label_segmentation_def ReadImage_def)
qed

text \<open>
  Witness for C7, amended: the file of model A is there, no file matches model C.
\<close>

theorem missing_file_IndexError_witness:
  "create_multi_model_label_segmentation offset_remap scenario_Model scenario_get_files
     scenario_files ''seg'' [''A'', ''C''] = Inl IndexError"
proof -
  have "\<forall>x \<in> set [''A'']. \<exists>p ps img.
       scenario_get_files ''seg'' (multilabel_prefix (scenario_Model x)) nii_suffixes = p # ps
       \<and> scenario_files p = Some (VolumeFile img)"
    by (simp add: scenario_get_files_def scenario_Model_def scenario_files_def os_path_join_def)
  moreover have "scenario_get_files ''seg'' (multilabel_prefix (scenario_Model ''C'')) nii_suffixes = []"
    by (simp add: scenario_get_files_def scenario_Model_def)
  ultimately show ?thesis
    using missing_file_IndexError [of "[''A'', ''C'']" "[''A'']" "''C''" "[]" scenario_get_files
        "''seg''" scenario_Model scenario_files offset_remap]
    by simp
qed

text \<open>
  C7, as the claim states it, fails: with no file matching the only requested model, the
  error is \<open>IndexError\<close>, not a file-not-found error.
\<close>

theorem missing_file_counterexample:
  "map_sum id (\<lambda>r. snd (fst r))
     (create_multi_model_label_segmentation offset_remap scenario_Model scenario_get_files
        scenario_files ''seg'' [''C''])
   = Inl IndexError \<and> IndexError \<noteq> FileNotFoundError"
  by code_simp

text \<open>
  C8. After a successful merge, the file \<open>combined_segmentations.nii.gz\<close> of the
  segmentation directory holds the returned volume, the file
  \<open>combined_segmentations.json\<close> of the same directory holds the returned index map, and
  no other file has changed; the two names do not depend on the model identifiers.
\<close>

theorem output_files:
  assumes "create_multi_model_label_segmentation remap Model get_files fs dir model_identifiers
             = Inr ((img, dict), fs')"
  shows "fs' (os_path_join dir ''combined_segmentations.nii.gz'') = Some (VolumeFile img)
         \<and> fs' (os_path_join dir ''combined_segmentations.json'') = Some (JsonFile dict)
         \<and> (\<forall>p. p \<noteq> os_path_join dir ''combined_segmentations.nii.gz''
                \<and> p \<noteq> os_path_join dir ''combined_segmentations.json'' \<longrightarrow> fs' p = fs p)
         \<and> os_path_join dir ''combined_segmentations.nii.gz''
               = dir @ (if dir = [] \<or> last dir = CHR ''/'' then [] else ''/'')
                     @ ''combined_segmentations.nii.gz''
         \<and> os_path_join dir ''combined_segmentations.json''
               = dir @ (if dir = [] \<or> last dir = CHR ''/'' then [] else ''/'')
                     @ ''combined_segmentations.json''"
proof -
  from assms have fs': "fs' = fs(os_path_join dir ''combined_segmentations.nii.gz'' \<mapsto> VolumeFile img,
                  os_path_join dir ''combined_segmentations.json'' \<mapsto> JsonFile dict)"
    by (auto elim: create_Inr)
  have ne: "os_path_join dir ''combined_segmentations.nii.gz''
              \<noteq> os_path_join dir ''combined_segmentations.json''"
    by (simp add: os_path_join_def)
  have "fs' (os_path_join dir ''combined_segmentations.nii.gz'') = Some (VolumeFile img)"
    and "fs' (os_path_join dir ''combined_segmentations.json'') = Some (JsonFile dict)"
    and "\<forall>p. p \<noteq> os_path_join dir ''combined_segmentations.nii.gz''
                \<and> p \<noteq> os_path_join dir ''combined_segmentations.json'' \<longrightarrow> fs' p = fs p"
    unfolding fs' using ne by simp_all
  moreover have "os_path_join dir ''combined_segmentations.nii.gz''
               = dir @ (if dir = [] \<or> last dir = CHR ''/'' then [] else ''/'')
                     @ ''combined_segmentations.nii.gz''"
    and "os_path_join dir ''combined_segmentations.json''
               = dir @ (if dir = [] \<or> last dir = CHR ''/'' then [] else ''/'')
                     @ ''combined_segmentations.json''"
    by (simp_all add: os_path_join_def)
  ultimately show ?thesis by blast
qed

lemma scenario_run:
  "map_sum id (\<lambda>r. (snd (fst r), fst (fst r) 0, fst (fst r) 1))
     (create_multi_model_label_segmentation offset_remap scenario_Model scenario_get_files
        scenario_files ''seg'' [''A'', ''B''])
   = Inr ([(1, ''liver''), (2, ''lung'')], 1, 2)"
  by code_simp

lemma scenario_success:
  obtains img dict fs' where
    "create_multi_model_label_segmentation offset_remap scenario_Model scenario_get_files
       scenario_files ''seg'' [''A'', ''B''] = Inr ((img, dict), fs')"
  using scenario_run
  by (cases "create_multi_model_label_segmentation offset_remap scenario_Model scenario_get_files
       scenario_files ''seg'' [''A'', ''B'']") auto

text \<open>
  Witness for C8: Scenario B in the directory \<open>seg\<close>.
\<close>

theorem output_files_witness:
  "\<exists>img dict fs'.
     create_multi_model_label_segmentation offset_remap scenario_Model scenario_get_files
       scenario_files ''seg'' [''A'', ''B''] = Inr ((img, dict), fs')
     \<and> fs' ''seg/combined_segmentations.nii.gz'' = Some (VolumeFile img)
     \<and> fs' ''seg/combined_segmentations.json'' = Some (JsonFile dict)
     \<and> fs' ''seg/A.nii.gz'' = scenario_files ''seg/A.nii.gz''"
proof -
  obtain img dict fs' where run:
    "create_multi_model_label_segmentation offset_remap scenario_Model scenario_get_files
       scenario_files ''seg'' [''A'', ''B''] = Inr ((img, dict), fs')"
    by (rule scenario_success)
  from output_files [OF run] have
    "fs' ''seg/combined_segmentations.nii.gz'' = Some (VolumeFile img)
     \<and> fs' ''seg/combined_segmentations.json'' = Some (JsonFile dict)
     \<and> fs' ''seg/A.nii.gz'' = scenario_files ''seg/A.nii.gz''"
    by (simp add: os_path_join_def)
  with run show ?thesis by blast
qed

text \<open>
  Witness for C4: Scenario B; voxel 0 keeps label 1 of model A, voxel 1 gets label 2.
\<close>

theorem merge_priority_witness:
  "fst (add_model_label_image offset_remap (\<lambda>v :: nat. if v = 0 then 1 else 0)
       [(1, ''liver'')] (\<lambda>v. if v \<le> 1 then 1 else 0) [(1, ''lung'')]) 0 = 1
   \<and> fst (add_model_label_image offset_remap (\<lambda>v :: nat. if v = 0 then 1 else 0)
       [(1, ''liver'')] (\<lambda>v. if v \<le> 1 then 1 else 0) [(1, ''lung'')]) 1 = 2
   \<and> (\<exists>img dict fs'.
        create_multi_model_label_segmentation offset_remap scenario_Model scenario_get_files
          scenario_files ''seg'' [''A'', ''B''] = Inr ((img, dict), fs')
        \<and> img 0 = 1)"
proof -
  obtain img dict fs' where run:
    "create_multi_model_label_segmentation offset_remap scenario_Model scenario_get_files
       scenario_files ''seg'' [''A'', ''B''] = Inr ((img, dict), fs')"
    by (rule scenario_success)
  let ?A = "\<lambda>v :: nat. if v = 0 then 1 else (0 :: nat)"
  let ?B = "\<lambda>v :: nat. if v \<le> 1 then 1 else (0 :: nat)"
  note step0 = merge_priority [OF offset_remap_collision_free,
      of ?A 0 "[(1, ''liver'')]" ?B "[(1, ''lung'')]" scenario_Model scenario_get_files
         scenario_files "''seg''" "[''A'', ''B'']" img dict fs']
  note step1 = merge_priority [OF offset_remap_collision_free,
      of ?A 1 "[(1, ''liver'')]" ?B "[(1, ''lung'')]" scenario_Model scenario_get_files
         scenario_files "''seg''" "[''A'', ''B'']" img dict fs']
  from step0 have a: "fst (add_model_label_image offset_remap ?A [(1, ''liver'')] ?B
      [(1, ''lung'')]) 0 = 1" by simp
  from step1 have b: "fst (add_model_label_image offset_remap ?A [(1, ''liver'')] ?B
      [(1, ''lung'')]) 1 = 2" by (simp add: offset_remap_def max_index_def)
  from step0 run obtain p ps base where
    "scenario_get_files ''seg'' (multilabel_prefix (scenario_Model (hd [''A'', ''B''])))
       nii_suffixes = p # ps"
    "scenario_files p = Some (VolumeFile base)" "\<forall>w. base w \<noteq> 0 \<longrightarrow> img w = base w"
    by blast
  then have "img 0 = 1"
    by (auto simp: scenario_get_files_def scenario_Model_def scenario_files_def os_path_join_def
        split: if_splits)
  with a b run show ?thesis by blast
qed

end
